theory Spec2Isabelle
  imports Main "HOL-Library.AList" "HOL-Library.Multiset"
begin

section \<open>Configuration trees\<close>

text \<open>
  A \<open>Config\<close> wraps a nested Python dictionary. Dictionaries keep insertion order, so a
  dictionary is an association list; \<open>config\<close> is the top-level dictionary \<open>Config.conf\<close>.
\<close>

datatype val = VBool bool | VInt int | VStr string

datatype pytree = Leaf val | Node "(string \<times> pytree) list"

type_synonym config = "(string \<times> pytree) list"

text \<open>
  Modelled from the spec: \<open>Config.update\<close> is imported from \<open>hhd.plugins\<close>, which is
  not part of the sources at hand. The spec says: "\<open>update(partial)\<close> recursively merges a partial tree
  into an existing one, overwriting only the leaves present in the partial tree."
  \<open>update_items old partial\<close> is that merge on dictionaries: a key of the partial tree
  that the old tree lacks is appended, a key both have is merged in place.
\<close>

fun update_tree :: "pytree \<Rightarrow> pytree \<Rightarrow> pytree"
  and update_items :: "config \<Rightarrow> config \<Rightarrow> config" where
  "update_tree (Node kvs) (Node ps) = Node (update_items kvs ps)"
| "update_tree (Leaf v) (Node ps) = Node ps"
| "update_tree old (Leaf w) = Leaf w"
| "update_items kvs [] = kvs"
| "update_items kvs ((k, p) # ps) =
     update_items
       (AList.update k (case map_of kvs k of None \<Rightarrow> p | Some old \<Rightarrow> update_tree old p) kvs)
       ps"




section \<open>Plugins and their order\<close>

datatype error =
    PluginFailure string
  | ValidationFailure
  | TypeMismatch
  | KeyError string
  | WatchSetupFailure
  | HttpFailure

text \<open>
  \<open>HHDPlugin\<close> is imported from \<open>hhd.plugins\<close>; its methods are parameters here. \<open>'w\<close> is
  whatever the plugins keep between calls. \<open>prepare\<close> and \<open>update\<close> receive the live Config
  and may change it in place; every method may raise.
\<close>

record 'w plugin =
  p_name :: string
  p_priority :: int
  p_settings :: config
  p_open :: "'w \<Rightarrow> error option \<times> 'w"
  p_prepare :: "'w \<Rightarrow> config \<Rightarrow> error option \<times> 'w \<times> config"
  p_update :: "'w \<Rightarrow> config \<Rightarrow> error option \<times> 'w \<times> config"
  p_close :: "'w \<Rightarrow> error option \<times> 'w"

text \<open>
  \<open>plugins\<close> in \<open>main\<close> is a dictionary from provider name to the plugins that provider
  detected. The discovery order is the order of its values.
\<close>

type_synonym 'w providers = "(string \<times> 'w plugin list) list"

definition discovered :: "'w providers \<Rightarrow> 'w plugin list" where
  "discovered plugins = concat (map snd plugins)"

text \<open>
  \<open>sorted_plugins.sort(key=lambda x: x.priority)\<close>: Python's sort is stable, and so is the
  insertion sort \<open>sort_key\<close>.
\<close>

definition sorted_plugins :: "'w providers \<Rightarrow> 'w plugin list" where
  "sorted_plugins plugins = sort_key p_priority (discovered plugins)"

section \<open>Config objects\<close>

text \<open>
  A \<open>Config\<close> is a mutable object, and \<open>main\<close> stores and changes such objects without
  copying them: the profiles dictionary holds the very object that a \<open>Profile\<close> event
  brought, and merges into it in place. So Config objects have an identity here: \<open>Made n\<close>
  is the \<open>n\<close>-th object that \<open>load_profile_yaml\<close> made for \<open>main\<close>, \<open>Sent n\<close> is an object that
  a producer (a plugin, the HTTP surface) made and put into an event. The store maps
  each object to the dictionary it wraps at the moment.
\<close>

datatype ref = Made nat | Sent nat

type_synonym store = "ref \<Rightarrow> config"

text \<open>
  What producers did to their own objects: \<open>sent\<close> lists the objects they made or rewrote,
  with their contents.
\<close>

definition receive :: "(nat \<times> config) list \<Rightarrow> store \<Rightarrow> store" where
  "receive sent objs r =
     (case r of
        Sent n \<Rightarrow> (case map_of sent n of Some c \<Rightarrow> c | None \<Rightarrow> objs r)
      | Made n \<Rightarrow> objs r)"

section \<open>Events and the event bus\<close>

text \<open>\<open>ev["config"]\<close> is a Config object.\<close>

datatype event =
    Settings
  | Profile string ref
  | Apply string
  | State ref
  | Other string

text \<open>
  \<open>EmitHolder\<close>. Every method body runs inside \<open>with self._condition\<close>, so each body is
  one atomic step, except that \<open>Condition.wait\<close> gives the lock up and takes it again once
  the condition has been notified. \<open>consumer\<close> says where the thread that calls
  \<open>get_events\<close> stands: outside a call, inside \<open>wait\<close>, or notified and about to take the
  lock again.
\<close>

datatype consumer = Idle | Waiting | Woken

record holder =
  events :: "event list"
  consumer :: consumer

definition notify_all :: "holder \<Rightarrow> holder" where
  "notify_all h = (if consumer h = Waiting then h\<lparr>consumer := Woken\<rparr> else h)"

text \<open>\<open>__call__\<close>: one event (\<open>Inl\<close>) is appended, a sequence of events (\<open>Inr\<close>) extends the buffer.\<close>

definition emit_call :: "event + event list \<Rightarrow> holder \<Rightarrow> holder" where
  "emit_call event h =
     notify_all
       (case event of
          Inr evs \<Rightarrow> h\<lparr>events := events h @ evs\<rparr>
        | Inl ev \<Rightarrow> h\<lparr>events := events h @ [ev]\<rparr>)"

text \<open>The last three lines of \<open>get_events\<close>: the buffer is swapped for an empty one.\<close>

definition take_events :: "holder \<Rightarrow> holder \<times> event list" where
  "take_events h = (h\<lparr>events := []\<rparr>, events h)"

text \<open>
  \<open>get_events\<close> up to its return or up to \<open>wait\<close>: the result is \<open>None\<close> when the caller is
  now waiting. The test is an \<open>if\<close>, and \<open>wait\<close> is called without a timeout.
\<close>

definition get_events :: "int \<Rightarrow> holder \<Rightarrow> holder \<times> event list option" where
  "get_events timeout h =
     (if events h = [] \<and> timeout \<noteq> - 1 then (h\<lparr>consumer := Waiting\<rparr>, None)
      else (fst (take_events h), Some (snd (take_events h))))"

text \<open>\<open>get_events\<close> after \<open>wait\<close> has returned.\<close>

definition resume :: "holder \<Rightarrow> holder \<times> event list option" where
  "resume h = (fst (take_events (h\<lparr>consumer := Idle\<rparr>)), Some (events h))"

definition has_events :: "holder \<Rightarrow> bool" where
  "has_events h = (events h \<noteq> [])"

text \<open>
  The atomic steps that threads take on the bus. \<open>Signal\<close> is the \<open>_inner\<close> of \<open>notifier\<close>,
  which notifies the same condition without emitting. A step that its thread cannot take
  in the current state (a second \<open>get_events\<close> of the one consumer, a return from \<open>wait\<close>
  without a notification) leaves the bus as it is.
\<close>

datatype action = Emit "event + event list" | Signal | GetEvents int | Resume

fun step :: "action \<Rightarrow> holder \<Rightarrow> holder \<times> event list option" where
  "step (Emit event) h = (emit_call event h, None)"
| "step Signal h = (notify_all h, None)"
| "step (GetEvents timeout) h = (if consumer h = Idle then get_events timeout h else (h, None))"
| "step Resume h = (if consumer h = Woken then resume h else (h, None))"

text \<open>A schedule is any interleaving of such steps; \<open>run\<close> collects what the drains returned.\<close>

fun run :: "action list \<Rightarrow> holder \<Rightarrow> holder \<times> event list list" where
  "run [] h = (h, [])"
| "run (a # as) h =
     (case step a h of
        (h', out) \<Rightarrow>
          (case run as h' of
             (h'', outs) \<Rightarrow> (h'', (case out of None \<Rightarrow> [] | Some evs \<Rightarrow> [evs]) @ outs)))"

text \<open>The events a schedule emits, in the order of the emitting steps.\<close>

fun emitted :: "action list \<Rightarrow> event list" where
  "emitted [] = []"
| "emitted (Emit (Inl ev) # as) = ev # emitted as"
| "emitted (Emit (Inr evs) # as) = evs @ emitted as"
| "emitted (a # as) = emitted as"

fun producer_step :: "action \<Rightarrow> bool" where
  "producer_step (Emit event) = True"
| "producer_step Signal = True"
| "producer_step a = False"

section \<open>Strings and paths\<close>

definition startswith :: "string \<Rightarrow> string \<Rightarrow> bool" where
  "startswith s pre = (take (length pre) s = pre)"

definition endswith :: "string \<Rightarrow> string \<Rightarrow> bool" where
  "endswith s suf = (length suf \<le> length s \<and> drop (length s - length suf) s = suf)"

text \<open>\<open>s.replace(pat, "")\<close>: every occurrence of \<open>pat\<close>, from the left, is removed.\<close>

function remove_all :: "string \<Rightarrow> string \<Rightarrow> string" where
  "remove_all pat [] = []"
| "remove_all pat (c # cs) =
     (if pat \<noteq> [] \<and> startswith (c # cs) pat
      then remove_all pat (drop (length pat) (c # cs))
      else c # remove_all pat cs)"
  by pat_completeness auto
termination
  by (relation "measure (\<lambda>(pat, s). length s)") auto

text \<open>\<open>os.path.join\<close> of two components.\<close>

definition join :: "string \<Rightarrow> string \<Rightarrow> string" where
  "join a b =
     (if startswith b ''/'' then b
      else if a = [] \<or> endswith a ''/'' then a @ b
      else a @ ''/'' @ b)"

definition CONFIG_DIR :: string where
  "CONFIG_DIR = ''~/.config/hhd''"

section \<open>The control loop: state, collaborators, effects\<close>

datatype delay = POLL_DELAY | MODIFY_DELAY

text \<open>What \<open>main\<close> does to the outside, in the order it does it.\<close>

datatype effect =
    CallOpen string
  | CallPrepare string
  | CallUpdate string
  | CallClose string
  | Acquire
  | Release
  | StoreProfile string
  | Sleep delay
  | WaitCond delay
  | SaveState string config config
  | SaveProfile string config "config option"
  | FixPerms string
  | WriteToken string
  | HttpsOpen
  | HttpsUpdate
  | HttpsClose
  | LogInvalid string

fun is_plugin_call :: "effect \<Rightarrow> bool" where
  "is_plugin_call (CallOpen n) = True"
| "is_plugin_call (CallPrepare n) = True"
| "is_plugin_call (CallUpdate n) = True"
| "is_plugin_call (CallClose n) = True"
| "is_plugin_call e = False"

fun is_run :: "effect \<Rightarrow> bool" where
  "is_run (CallPrepare n) = True"
| "is_run (CallUpdate n) = True"
| "is_run e = False"

fun is_close :: "effect \<Rightarrow> bool" where
  "is_close (CallClose n) = True"
| "is_close e = False"

fun is_save_profile :: "effect \<Rightarrow> bool" where
  "is_save_profile (SaveProfile fn s c) = True"
| "is_save_profile e = False"

text \<open>
  The variables of \<open>main\<close>. \<open>settings_changed\<close> is the local of the loop body; \<open>world\<close> is
  the plugins' own state; \<open>https\<close> says whether a server object exists; \<open>trace\<close> is the log
  of effects. \<open>profiles\<close> and \<open>templates\<close> map names to Config objects, \<open>objects\<close> is the
  store of those objects and \<open>made\<close> counts the objects made so far. The live Config is
  given as the dictionary it wraps: no statement of \<open>main\<close> binds its object to another
  name or puts it into a dictionary, and what the plugins do to it in place is the result
  of their calls.
\<close>

record 'w state =
  world :: 'w
  settings :: config
  conf :: config
  profiles :: "(string \<times> ref) list"
  templates :: "(string \<times> ref) list"
  objects :: store
  made :: nat
  should_initialize :: bool
  initial_run :: bool
  should_exit :: bool
  settings_changed :: bool
  emit :: holder
  https :: bool
  prev_http_cfg :: "pytree option"
  trace :: "effect list"

text \<open>
  What one pass of the loop gets from outside \<open>main\<close>: the functions imported from
  \<open>hhd.plugins\<close>, \<open>hhd.plugins.settings\<close> and \<open>hhd.utils\<close> (with the file system they
  read), and what other threads and signal handlers do meanwhile.
  \<^item> \<open>validate_config conf settings use_defaults\<close> returns the Config as it leaves it, or raises.
  \<^item> \<open>getitem\<close> is \<open>Config.__getitem__\<close>, \<open>to_bool\<close> and \<open>to_int\<close> are \<open>.to(bool)\<close> and
    \<open>.to(int)\<close>.
  \<^item> \<open>watch_dirs\<close> is the outcome of opening and arming the two watched directories.
  \<^item> \<open>arrived\<close> are the events emitted by other threads before this pass drains the bus,
    \<open>late\<close> those emitted after the drain and before the wait; \<open>sent\<close> are the Config
    objects that the producers made or rewrote before the drain.
  \<^item> \<open>poll_while_saving\<close>: a SIGPOLL handler ran after \<open>has_new\<close> was read and before the
    flag is cleared; \<open>poll_late\<close>: one ran after that, before the wait;
    \<open>terminate\<close>: a SIGINT or SIGTERM handler ran before the wait.
\<close>

record env =
  expanduser :: "string \<Rightarrow> string"
  load_relative_yaml :: "string \<Rightarrow> pytree"
  merge_settings :: "config list \<Rightarrow> config"
  load_state_yaml :: "string \<Rightarrow> config \<Rightarrow> config option"
  get_default_state :: "config \<Rightarrow> config"
  listdir :: "string \<Rightarrow> string list"
  load_profile_yaml :: "string \<Rightarrow> config option"
  validate_config :: "config \<Rightarrow> config \<Rightarrow> bool \<Rightarrow> error + config"
  save_state_yaml :: "string \<Rightarrow> config \<Rightarrow> config \<Rightarrow> bool"
  save_profile_yaml :: "string \<Rightarrow> config \<Rightarrow> config option \<Rightarrow> bool"
  getitem :: "pytree \<Rightarrow> string \<Rightarrow> error + pytree"
  to_bool :: "pytree \<Rightarrow> error + bool"
  to_int :: "pytree \<Rightarrow> error + int"
  watch_dirs :: "error option"
  https_close :: "error option"
  arrived :: "event list"
  sent :: "(nat \<times> config) list"
  late :: "event list"
  poll_while_saving :: bool
  poll_late :: bool
  terminate :: bool

text \<open>
  A raise leaves the variables as they are at that moment: a result is the state together
  with the exception, if one is propagating.
\<close>

type_synonym 'w result = "error option \<times> 'w state"

definition ok :: "'w state \<Rightarrow> 'w result" where
  "ok st = (None, st)"

definition raise :: "error \<Rightarrow> 'w state \<Rightarrow> 'w result" where
  "raise e st = (Some e, st)"

definition seq :: "'w result \<Rightarrow> ('w state \<Rightarrow> 'w result) \<Rightarrow> 'w result" where
  "seq r f = (case r of (None, st) \<Rightarrow> f st | (Some e, st) \<Rightarrow> (Some e, st))"

definition log :: "effect list \<Rightarrow> 'w state \<Rightarrow> 'w state" where
  "log es st = st\<lparr>trace := trace st @ es\<rparr>"

text \<open>A \<open>for\<close> loop over a list: the body runs on each element in turn until one raises.\<close>

fun for_each :: "('a \<Rightarrow> 'w state \<Rightarrow> 'w result) \<Rightarrow> 'a list \<Rightarrow> 'w state \<Rightarrow> 'w result" where
  "for_each body [] st = ok st"
| "for_each body (x # xs) st = seq (body x st) (for_each body xs)"

definition state_fn :: "env \<Rightarrow> string" where
  "state_fn env = expanduser env (join CONFIG_DIR ''state.yml'')"

definition token_fn :: "env \<Rightarrow> string" where
  "token_fn env = expanduser env (join CONFIG_DIR ''token'')"

definition profile_dir :: "env \<Rightarrow> string" where
  "profile_dir env = expanduser env (join CONFIG_DIR ''profiles'')"

section \<open>Reinitialization\<close>

text \<open>\<open>settings = merge_settings([*[p.settings() for p in sorted_plugins], hhd_settings])\<close>\<close>

definition new_settings :: "'w plugin list \<Rightarrow> env \<Rightarrow> config" where
  "new_settings plugs env =
     merge_settings env
       (map p_settings plugs @ [[(''hhd'', load_relative_yaml env ''settings.yml'')]])"

definition load_settings :: "'w plugin list \<Rightarrow> env \<Rightarrow> 'w state \<Rightarrow> 'w state" where
  "load_settings plugs env st = st\<lparr>settings := new_settings plugs env\<rparr>"

text \<open>
  The state file. \<open>load_state_yaml\<close> gives a Config or \<open>None\<close>; \<open>conf.conf\<close> is true when
  the dictionary of the previous Config is not empty.
\<close>

definition load_state :: "env \<Rightarrow> 'w state \<Rightarrow> 'w state" where
  "load_state env st =
     (case load_state_yaml env (state_fn env) (settings st) of
        None \<Rightarrow> (if conf st \<noteq> [] then st else st\<lparr>conf := get_default_state env (settings st)\<rparr>)
      | Some new_conf \<Rightarrow> st\<lparr>conf := new_conf\<rparr>)"

text \<open>
  The body of the loop over \<open>os.listdir(profile_dir)\<close>. \<open>load_profile_yaml\<close> makes a new
  object, \<open>validate_config\<close> works on it in place, and the object is put into one of the
  two dictionaries.
\<close>

definition load_profile :: "env \<Rightarrow> string \<Rightarrow> 'w state \<Rightarrow> 'w result" where
  "load_profile env fn st =
     (if \<not> endswith fn ''.yml'' then ok st
      else
        (case load_profile_yaml env (join (profile_dir env) fn) of
           None \<Rightarrow> ok st
         | Some s \<Rightarrow>
             (case validate_config env s (settings st) False of
                Inl e \<Rightarrow> raise e st
              | Inr s' \<Rightarrow>
                  (if startswith (remove_all ''.yml'' fn) ''_''
                   then ok (st\<lparr>templates :=
                                  AList.update (remove_all ''.yml'' fn) (Made (made st)) (templates st),
                               objects := (objects st)(Made (made st) := s'),
                               made := Suc (made st)\<rparr>)
                   else ok (log [Acquire, StoreProfile (remove_all ''.yml'' fn), Release]
                              (st\<lparr>profiles :=
                                    AList.update (remove_all ''.yml'' fn) (Made (made st)) (profiles st),
                                  objects := (objects st)(Made (made st) := s'),
                                  made := Suc (made st)\<rparr>))))))"

definition watch_files :: "env \<Rightarrow> 'w state \<Rightarrow> 'w result" where
  "watch_files env st = (case watch_dirs env of None \<Rightarrow> ok st | Some e \<Rightarrow> raise e st)"

text \<open>Starting the server, once \<open>http_cfg["enable"].to(bool)\<close> was true.\<close>

definition start_http :: "env \<Rightarrow> pytree \<Rightarrow> 'w state \<Rightarrow> 'w result" where
  "start_http env http_cfg st =
     (case getitem env http_cfg ''port'' of
        Inl e \<Rightarrow> raise e st
      | Inr p \<Rightarrow>
     (case to_int env p of
        Inl e \<Rightarrow> raise e st
      | Inr port \<Rightarrow>
     (case getitem env http_cfg ''localhost'' of
        Inl e \<Rightarrow> raise e st
      | Inr l \<Rightarrow>
     (case to_bool env l of
        Inl e \<Rightarrow> raise e st
      | Inr localhost \<Rightarrow>
     (case getitem env http_cfg ''token'' of
        Inl e \<Rightarrow> raise e st
      | Inr t \<Rightarrow>
     (case to_bool env t of
        Inl e \<Rightarrow> raise e st
      | Inr use_token \<Rightarrow>
          ok (log ((if use_token then [WriteToken (token_fn env)] else [])
                     @ [HttpsUpdate, HttpsOpen])
                (st\<lparr>https := True\<rparr>))))))))"

definition init_http :: "env \<Rightarrow> 'w state \<Rightarrow> 'w result" where
  "init_http env st =
     (case getitem env (Node (conf st)) ''hhd.http'' of
        Inl e \<Rightarrow> raise e st
      | Inr http_cfg \<Rightarrow>
          (if Some http_cfg = prev_http_cfg st then ok st
           else
             seq (if https st
                  then (case https_close env of
                          None \<Rightarrow> ok (log [HttpsClose] (st\<lparr>prev_http_cfg := Some http_cfg\<rparr>))
                        | Some e \<Rightarrow> raise e (log [HttpsClose] (st\<lparr>prev_http_cfg := Some http_cfg\<rparr>)))
                  else ok (st\<lparr>prev_http_cfg := Some http_cfg\<rparr>))
               (\<lambda>st1.
                  (case getitem env http_cfg ''enable'' of
                     Inl e \<Rightarrow> raise e st1
                   | Inr en \<Rightarrow>
                       (case to_bool env en of
                          Inl e \<Rightarrow> raise e st1
                        | Inr enable \<Rightarrow> if enable then start_http env http_cfg st1 else ok st1)))))"

text \<open>
  The body of \<open>if should_initialize.is_set() or initial_run\<close>. It starts with the sleep,
  the settings, the state file and two empty dictionaries for profiles and templates.
\<close>

definition reload_start :: "'w plugin list \<Rightarrow> env \<Rightarrow> 'w state \<Rightarrow> 'w state" where
  "reload_start plugs env st =
     (load_state env
        (load_settings plugs env
           ((if initial_run st then st else log [Sleep POLL_DELAY] st)\<lparr>initial_run := False\<rparr>)))
       \<lparr>profiles := [], templates := []\<rparr>"

definition reload :: "'w plugin list \<Rightarrow> env \<Rightarrow> 'w state \<Rightarrow> 'w result" where
  "reload plugs env st =
     seq (seq (seq
       (for_each (load_profile env) (listdir env (profile_dir env)) (reload_start plugs env st))
       (watch_files env))
       (init_http env))
       (\<lambda>st'. ok (st'\<lparr>should_initialize := False\<rparr>))"

definition configure :: "'w plugin list \<Rightarrow> env \<Rightarrow> 'w state \<Rightarrow> 'w result" where
  "configure plugs env st =
     (if should_initialize st \<or> initial_run st then reload plugs env st else ok st)"

section \<open>Events\<close>

text \<open>
  \<open>validate_config(profiles[ev["name"]], settings, use_defaults=False)\<close>, on the object in
  place.
\<close>

definition validate_profile :: "env \<Rightarrow> ref \<Rightarrow> 'w state \<Rightarrow> 'w result" where
  "validate_profile env p st =
     (case validate_config env (objects st p) (settings st) False of
        Inl e \<Rightarrow> raise e st
      | Inr c \<Rightarrow> ok (st\<lparr>objects := (objects st)(p := c)\<rparr>))"

text \<open>
  One turn of the \<open>match ev["type"]\<close> loop. For a known name the event's Config is merged
  into the stored object, in place; for an unknown name the event's own object is stored.
  \<open>Config.update\<close> takes the dictionary of its argument and merges it leaf by leaf, so the
  object merged into shares nothing with the one read.
\<close>

fun apply_event :: "env \<Rightarrow> event \<Rightarrow> 'w state \<Rightarrow> 'w result" where
  "apply_event env Settings st = ok (st\<lparr>settings_changed := True\<rparr>)"
| "apply_event env (Profile name config) st =
     (case map_of (profiles st) name of
        Some p \<Rightarrow>
          validate_profile env p
            (st\<lparr>objects := (objects st)(p := update_items (objects st p) (objects st config))\<rparr>)
      | None \<Rightarrow>
          validate_profile env config
            (log [Acquire, StoreProfile name, Release]
               (st\<lparr>profiles := AList.update name config (profiles st)\<rparr>)))"
| "apply_event env (Apply name) st =
     (case map_of (profiles st) name of
        Some p \<Rightarrow> ok (st\<lparr>conf := update_items (conf st) (objects st p)\<rparr>)
      | None \<Rightarrow> ok st)"
| "apply_event env (State config) st =
     ok (st\<lparr>conf := update_items (conf st) (objects st config)\<rparr>)"
| "apply_event env (Other t) st = ok (log [LogInvalid t] st)"

text \<open>
  \<open>settings_changed = False\<close> and \<open>emit.get_events()\<close>, called with the default
  \<open>timeout = -1\<close>, for which \<open>get_events\<close> is \<open>take_events\<close>. By then the producers have
  emitted \<open>arrived\<close> and made the objects \<open>sent\<close>.
\<close>

definition drained :: "env \<Rightarrow> 'w state \<Rightarrow> event list" where
  "drained env st = snd (take_events (emit_call (Inr (arrived env)) (emit st)))"

definition drain :: "env \<Rightarrow> 'w state \<Rightarrow> 'w state" where
  "drain env st =
     st\<lparr>settings_changed := False,
        objects := receive (sent env) (objects st),
        emit := fst (take_events (emit_call (Inr (arrived env)) (emit st)))\<rparr>"

definition process :: "env \<Rightarrow> 'w state \<Rightarrow> 'w result" where
  "process env st = for_each (apply_event env) (drained env st) (drain env st)"

text \<open>\<open>validate_config(conf, settings)\<close>, with \<open>use_defaults\<close> at its default \<open>True\<close>.\<close>

definition validate_live :: "env \<Rightarrow> 'w state \<Rightarrow> 'w result" where
  "validate_live env st =
     (case validate_config env (conf st) (settings st) True of
        Inl e \<Rightarrow> raise e st
      | Inr c \<Rightarrow> ok (st\<lparr>conf := c\<rparr>))"

definition flag_settings :: "'w state \<Rightarrow> 'w result" where
  "flag_settings st = ok (if settings_changed st then st\<lparr>should_initialize := True\<rparr> else st)"

section \<open>Running the plugins\<close>

text \<open>\<open>p.prepare(conf)\<close> and \<open>p.update(conf)\<close>\<close>

definition prepare_plugin :: "'w plugin \<Rightarrow> 'w state \<Rightarrow> 'w result" where
  "prepare_plugin p st =
     (case p_prepare p (world st) (conf st) of
        (exn, w, c) \<Rightarrow> (exn, log [CallPrepare (p_name p)] (st\<lparr>world := w, conf := c\<rparr>)))"

definition update_plugin :: "'w plugin \<Rightarrow> 'w state \<Rightarrow> 'w result" where
  "update_plugin p st =
     (case p_update p (world st) (conf st) of
        (exn, w, c) \<Rightarrow> (exn, log [CallUpdate (p_name p)] (st\<lparr>world := w, conf := c\<rparr>)))"

text \<open>The calls of one full pass over the plugins.\<close>

definition run_calls :: "'w plugin list \<Rightarrow> effect list" where
  "run_calls plugs =
     map (\<lambda>p. CallPrepare (p_name p)) (rev plugs) @ map (\<lambda>p. CallUpdate (p_name p)) plugs"

text \<open>\<open>if not settings_changed:\<close> prepare over \<open>reversed(sorted_plugins)\<close>, then update.\<close>

definition plugin_loop :: "'w plugin list \<Rightarrow> 'w state \<Rightarrow> 'w result" where
  "plugin_loop plugs st =
     (if \<not> settings_changed st
      then seq (for_each prepare_plugin (rev plugs) st) (for_each update_plugin plugs)
      else ok st)"

section \<open>Saving and waiting\<close>

definition profile_fn :: "env \<Rightarrow> string \<Rightarrow> string" where
  "profile_fn env name = join (profile_dir env) (name @ ''.yml'')"

text \<open>One \<open>save_profile_yaml\<close> with its \<open>fix_perms\<close>: the effects, and whether it wrote.\<close>

definition write_profile :: "env \<Rightarrow> config \<Rightarrow> string \<Rightarrow> config option \<Rightarrow> effect list \<times> bool" where
  "write_profile env s fn prof =
     (SaveProfile fn s prof # (if save_profile_yaml env fn s prof then [FixPerms fn] else []),
      save_profile_yaml env fn s prof)"

text \<open>\<open>for name, prof in profiles.items()\<close>\<close>

fun save_profiles ::
  "env \<Rightarrow> config \<Rightarrow> store \<Rightarrow> (string \<times> ref) list \<Rightarrow> effect list \<times> bool" where
  "save_profiles env s objs [] = ([], False)"
| "save_profiles env s objs ((name, prof) # rest) =
     (fst (write_profile env s (profile_fn env name) (Some (objs prof)))
        @ fst (save_profiles env s objs rest),
      snd (write_profile env s (profile_fn env name) (Some (objs prof)))
        \<or> snd (save_profiles env s objs rest))"

definition save_state :: "env \<Rightarrow> 'w state \<Rightarrow> effect list \<times> bool" where
  "save_state env st =
     (SaveState (state_fn env) (settings st) (conf st)
        # (if save_state_yaml env (state_fn env) (settings st) (conf st)
           then [FixPerms (state_fn env)] else []),
      save_state_yaml env (state_fn env) (settings st) (conf st))"

definition save_template :: "env \<Rightarrow> 'w state \<Rightarrow> effect list \<times> bool" where
  "save_template env st =
     write_profile env (settings st) (join (profile_dir env) ''_template.yml'')
       (map_option (objects st) (map_of (templates st) ''_template''))"

text \<open>What saving the state, every profile and the template does, in that order.\<close>

definition save_effects :: "env \<Rightarrow> 'w state \<Rightarrow> effect list" where
  "save_effects env st =
     fst (save_state env st) @ fst (save_profiles env (settings st) (objects st) (profiles st))
       @ fst (save_template env st)"

text \<open>The local \<open>saved\<close> once the three kinds of file have been saved.\<close>

definition saved :: "env \<Rightarrow> 'w state \<Rightarrow> bool" where
  "saved env st =
     (snd (save_state env st) \<or> snd (save_profiles env (settings st) (objects st) (profiles st))
      \<or> snd (save_template env st))"

text \<open>
  The save loop. \<open>has_new\<close> is \<open>should_initialize st\<close>, read before anything is saved; a
  SIGPOLL handler may set the flag while the files are written or during the sleep.
\<close>

definition save_phase :: "env \<Rightarrow> 'w state \<Rightarrow> 'w state" where
  "save_phase env st =
     (if \<not> should_initialize st \<and> saved env st
      then (log (save_effects env st @ [Sleep MODIFY_DELAY]) st)\<lparr>should_initialize := False\<rparr>
      else (log (save_effects env st) st)
             \<lparr>should_initialize := should_initialize st \<or> poll_while_saving env\<rparr>)"

definition notify_http :: "'w state \<Rightarrow> 'w state" where
  "notify_http st = (if https st then log [HttpsUpdate] st else st)"

text \<open>
  The wait at the end of the pass, after what other threads and signal handlers did in
  the meantime.
\<close>

definition wait_phase :: "env \<Rightarrow> 'w state \<Rightarrow> 'w state" where
  "wait_phase env st =
     log ([Acquire]
          @ (if \<not> (should_exit st \<or> terminate env) \<and> \<not> settings_changed st
                \<and> \<not> (should_initialize st \<or> poll_late env)
                \<and> \<not> has_events (emit_call (Inr (late env)) (emit st))
             then [WaitCond POLL_DELAY] else [])
          @ [Release])
       (st\<lparr>emit := emit_call (Inr (late env)) (emit st),
           should_initialize := should_initialize st \<or> poll_late env,
           should_exit := should_exit st \<or> terminate env\<rparr>)"

section \<open>One generation, and \<open>main\<close>\<close>

text \<open>
  The body of \<open>while not should_exit.is_set()\<close>: what comes before the plugins run, the
  plugins, and what comes after.
\<close>

definition before_plugins :: "'w plugin list \<Rightarrow> env \<Rightarrow> 'w state \<Rightarrow> 'w result" where
  "before_plugins plugs env st =
     seq (seq (seq (configure plugs env st) (process env)) (validate_live env)) flag_settings"

definition after_plugins :: "env \<Rightarrow> 'w state \<Rightarrow> 'w state" where
  "after_plugins env st = wait_phase env (notify_http (save_phase env st))"

definition generation :: "'w plugin list \<Rightarrow> env \<Rightarrow> 'w state \<Rightarrow> 'w result" where
  "generation plugs env st =
     seq (seq (before_plugins plugs env st) (plugin_loop plugs)) (\<lambda>st'. ok (after_plugins env st'))"

text \<open>
  The loop. Each pass takes its surroundings from the list; \<open>None\<close> says that the daemon
  is still looping when the list is used up.
\<close>

fun main_loop :: "'w plugin list \<Rightarrow> env list \<Rightarrow> 'w state \<Rightarrow> 'w result option" where
  "main_loop plugs [] st = (if should_exit st then Some (ok st) else None)"
| "main_loop plugs (env # envs) st =
     (if should_exit st then Some (ok st)
      else
        (case generation plugs env st of
           (None, st') \<Rightarrow> main_loop plugs envs st'
         | (Some e, st') \<Rightarrow> Some (Some e, st')))"

text \<open>\<open>p.open(emit, ctx)\<close>, and \<open>p.close()\<close>, which has no handler around it.\<close>

definition open_plugin :: "'w plugin \<Rightarrow> 'w state \<Rightarrow> 'w result" where
  "open_plugin p st =
     (case p_open p (world st) of (exn, w) \<Rightarrow> (exn, log [CallOpen (p_name p)] (st\<lparr>world := w\<rparr>)))"

definition close_plugin :: "'w plugin \<Rightarrow> 'w state \<Rightarrow> 'w result" where
  "close_plugin p st =
     (case p_close p (world st) of (exn, w) \<Rightarrow> (exn, log [CallClose (p_name p)] (st\<lparr>world := w\<rparr>)))"

definition initial_state :: "'w \<Rightarrow> 'w state" where
  "initial_state w =
     \<lparr>world = w, settings = [], conf = [], profiles = [], templates = [],
      objects = (\<lambda>r. []), made = 0,
      should_initialize = False, initial_run = True, should_exit = False,
      settings_changed = False, emit = \<lparr>events = [], consumer = Idle\<rparr>,
      https = False, prev_http_cfg = None, trace = []\<rparr>"

text \<open>
  The \<open>try\<close> block, from the sorting of the plugins on: \<open>return\<close> without plugins,
  \<open>for p in sorted_plugins: p.open(emit, ctx)\<close>, then the loop.
\<close>

definition try_block :: "'w providers \<Rightarrow> env list \<Rightarrow> 'w state \<Rightarrow> 'w result option" where
  "try_block plugins envs st =
     (if sorted_plugins plugins = [] then Some (ok st)
      else
        (case for_each open_plugin (sorted_plugins plugins) st of
           (None, st') \<Rightarrow> main_loop (sorted_plugins plugins) envs st'
         | (Some e, st') \<Rightarrow> Some (Some e, st')))"

text \<open>
  The \<open>finally\<close> block: the server and then
  \<open>for plugs in plugins.values(): for p in plugs: p.close()\<close>. An exception raised in it
  replaces the one that was propagating. Closing the watch descriptors cannot raise
  (\<open>except Exception: pass\<close>); the calls of \<open>close\<close> have no such handler.
\<close>

definition close_http :: "env \<Rightarrow> 'w state \<Rightarrow> 'w result" where
  "close_http env st =
     (if https st
      then (case https_close env of
              None \<Rightarrow> ok (log [HttpsClose] st)
            | Some e \<Rightarrow> raise e (log [HttpsClose] st))
      else ok st)"

definition finally_block :: "'w providers \<Rightarrow> env \<Rightarrow> 'w result \<Rightarrow> 'w result" where
  "finally_block plugins env r =
     (case seq (close_http env (snd r)) (for_each close_plugin (discovered plugins)) of
        (None, st) \<Rightarrow> (fst r, st)
      | (Some e, st) \<Rightarrow> (Some e, st))"

definition main :: "'w providers \<Rightarrow> env list \<Rightarrow> env \<Rightarrow> 'w \<Rightarrow> 'w result option" where
  "main plugins envs env w =
     map_option (finally_block plugins env) (try_block plugins envs (initial_state w))"

text \<open>The log only grows, and by effects of one kind.\<close>

definition extends :: "(effect \<Rightarrow> bool) \<Rightarrow> 'w state \<Rightarrow> 'w state \<Rightarrow> bool" where
  "extends P st st' =
     (take (length (trace st)) (trace st') = trace st \<and> list_all P (drop (length (trace st)) (trace st')))"

text \<open>No plugin is closed, and a plugin that is opened is one of the named ones.\<close>

definition opened_ok :: "string list \<Rightarrow> effect \<Rightarrow> bool" where
  "opened_ok names e = (\<not> is_close e \<and> (\<forall>n. e = CallOpen n \<longrightarrow> n \<in> set names))"

text \<open>The effects that a step added to the log.\<close>

definition new_effects :: "'w state \<Rightarrow> 'w state \<Rightarrow> effect list" where
  "new_effects st st' = drop (length (trace st)) (trace st')"

section \<open>The order the specification words ask for\<close>

text \<open>
  "Descending priority order, with priority ties broken by the plugins' discovery order",
  read as a stable sort of the discovered plugins by falling priority.
\<close>

definition descending_by_discovery :: "'w plugin list \<Rightarrow> 'w plugin list" where
  "descending_by_discovery ps = sort_key (\<lambda>p. - p_priority p) ps"

section \<open>Concrete inputs\<close>

text \<open>A plugin that does nothing, and surroundings in which nothing happens.\<close>

definition idle_plugin :: "string \<Rightarrow> int \<Rightarrow> unit plugin" where
  "idle_plugin n prio =
     \<lparr>p_name = n, p_priority = prio, p_settings = [],
      p_open = (\<lambda>w. (None, w)),
      p_prepare = (\<lambda>w c. (None, w, c)),
      p_update = (\<lambda>w c. (None, w, c)),
      p_close = (\<lambda>w. (None, w))\<rparr>"

definition quiet_env :: env where
  "quiet_env =
     \<lparr>expanduser = (\<lambda>s. s),
      load_relative_yaml = (\<lambda>fn. Node []),
      merge_settings = concat,
      load_state_yaml = (\<lambda>fn s. None),
      get_default_state = (\<lambda>s. [(''hhd'', Node [(''http'', Node [(''enable'', Leaf (VBool False))])])]),
      listdir = (\<lambda>d. []),
      load_profile_yaml = (\<lambda>fn. None),
      validate_config = (\<lambda>c s d. Inr c),
      save_state_yaml = (\<lambda>fn s c. False),
      save_profile_yaml = (\<lambda>fn s c. False),
      getitem = (\<lambda>t k. if k = ''hhd.http'' then Inr (Node [(''enable'', Leaf (VBool False))])
                        else if k = ''enable'' then Inr (Leaf (VBool False))
                        else Inl (KeyError k)),
      to_bool = (\<lambda>t. case t of Leaf (VBool b) \<Rightarrow> Inr b | _ \<Rightarrow> Inl TypeMismatch),
      to_int = (\<lambda>t. case t of Leaf (VInt i) \<Rightarrow> Inr i | _ \<Rightarrow> Inl TypeMismatch),
      watch_dirs = None,
      https_close = None,
      arrived = [],
      sent = [],
      late = [],
      poll_while_saving = False,
      poll_late = False,
      terminate = False\<rparr>"

section \<open>Sequencing, loops and the log\<close>

lemma trace_log [simp]: "trace (log es st) = trace st @ es"
  by (simp add: log_def)

lemma log_fields [simp]:
  "world (log es st) = world st" "settings (log es st) = settings st"
  "conf (log es st) = conf st" "profiles (log es st) = profiles st"
  "templates (log es st) = templates st" "should_initialize (log es st) = should_initialize st"
  "initial_run (log es st) = initial_run st" "should_exit (log es st) = should_exit st"
  "settings_changed (log es st) = settings_changed st" "emit (log es st) = emit st"
  "https (log es st) = https st" "prev_http_cfg (log es st) = prev_http_cfg st"
  "objects (log es st) = objects st" "made (log es st) = made st"
  by (simp_all add: log_def)

lemma extendsI: "trace st' = trace st @ es \<Longrightarrow> list_all P es \<Longrightarrow> extends P st st'"
  by (simp add: extends_def)

lemma extendsD: "extends P st st' \<Longrightarrow> \<exists>es. trace st' = trace st @ es \<and> list_all P es"
  unfolding extends_def by (metis append_take_drop_id)

lemma extends_new: "extends P st st' \<Longrightarrow> trace st' = trace st @ new_effects st st' \<and> list_all P (new_effects st st')"
  unfolding extends_def new_effects_def by (metis append_take_drop_id)

lemma extends_refl: "extends P st st"
  by (rule extendsI [of _ _ "[]"]) simp_all

lemma extends_same: "trace st' = trace st \<Longrightarrow> extends P st st'"
  by (rule extendsI [of _ _ "[]"]) simp_all

lemma extends_trans: "extends P a b \<Longrightarrow> extends P b c \<Longrightarrow> extends P a c"
proof -
  assume "extends P a b" "extends P b c"
  then obtain es fs where "trace b = trace a @ es" "list_all P es" "trace c = trace b @ fs" "list_all P fs"
    by (auto dest!: extendsD)
  then show ?thesis by (intro extendsI [of _ _ "es @ fs"]) simp_all
qed

lemma new_effects_append: "trace st' = trace st @ es \<Longrightarrow> new_effects st st' = es"
  by (simp add: new_effects_def)

lemma seq_ok [simp]: "seq (None, st) f = f st"
  by (simp add: seq_def)

lemma seq_raise [simp]: "seq (Some e, st) f = (Some e, st)"
  by (simp add: seq_def)

lemma seq_fail: "fst r = Some e \<Longrightarrow> seq r f = r"
  by (cases r) simp

lemma seq_pass: "fst r = None \<Longrightarrow> seq r f = f (snd r)"
  by (cases r) simp

lemma seq_None: "fst (seq r f) = None \<Longrightarrow> fst r = None \<and> seq r f = f (snd r)"
  by (cases r; cases "fst r") (auto simp: seq_def)

lemma seq_extends:
  assumes "extends P st (snd r)" "\<And>s. extends P s (snd (f s))"
  shows "extends P st (snd (seq r f))"
proof (cases r)
  case (Pair exn s)
  show ?thesis
  proof (cases exn)
    case None
    with Pair assms(1) assms(2) [of s] show ?thesis by (auto intro: extends_trans)
  next
    case (Some e)
    with Pair assms(1) show ?thesis by simp
  qed
qed

lemma seq_field:
  assumes "\<And>s. g (snd (f s)) = g s"
  shows "g (snd (seq r f)) = g (snd r)"
proof (cases r)
  case (Pair exn s)
  with assms [of s] show ?thesis by (cases exn) simp_all
qed

lemma seq_invariant:
  assumes "I (snd r)" "\<And>s. I s \<Longrightarrow> I (snd (f s))"
  shows "I (snd (seq r f))"
proof (cases r)
  case (Pair exn s)
  with assms(1) assms(2) [of s] show ?thesis by (cases exn) simp_all
qed

lemma for_each_invariant:
  assumes "\<And>x s. I s \<Longrightarrow> I (snd (body x s))"
  shows "I st \<Longrightarrow> I (snd (for_each body xs st))"
proof (induction xs arbitrary: st)
  case Nil
  then show ?case by (simp add: ok_def)
next
  case (Cons x xs)
  show ?case unfolding for_each.simps
    by (rule seq_invariant [where I = I]) (use assms Cons in auto)
qed

lemma for_each_field:
  assumes "\<And>x s. g (snd (body x s)) = g s"
  shows "g (snd (for_each body xs st)) = g st"
  by (rule for_each_invariant [where I = "\<lambda>s. g s = g st"]) (simp_all add: assms)

lemma for_each_extends:
  assumes "\<And>x s. extends P s (snd (body x s))"
  shows "extends P st (snd (for_each body xs st))"
  by (rule for_each_invariant [where I = "\<lambda>s. extends P st s"])
     (auto intro: extends_trans assms extends_refl)

lemma for_each_reaches:
  assumes stable: "\<And>y s. Q s \<Longrightarrow> Q (snd (body y s))"
    and est: "\<And>s. fst (body x s) = None \<Longrightarrow> Q (snd (body x s))"
  shows "fst (for_each body xs st) = None \<Longrightarrow> x \<in> set xs \<Longrightarrow> Q (snd (for_each body xs st))"
proof (induction xs arbitrary: st)
  case Nil
  then show ?case by simp
next
  case (Cons y ys)
  from Cons.prems(1) have ok1: "fst (body y st) = None"
    and eq: "for_each body (y # ys) st = for_each body ys (snd (body y st))"
    using seq_None [of "body y st" "for_each body ys"] by simp_all
  show ?case
  proof (cases "x = y")
    case True
    with est [of st] ok1 have q: "Q (snd (body y st))" by simp
    have "Q (snd (for_each body ys (snd (body y st))))"
      by (rule for_each_invariant [where I = Q]) (use stable q in auto)
    then show ?thesis unfolding eq .
  next
    case False
    with Cons.prems have "x \<in> set ys" by simp
    with Cons.IH [of "snd (body y st)"] Cons.prems(1) show ?thesis unfolding eq by simp
  qed
qed

lemma for_each_calls:
  assumes "\<And>x s. trace (snd (body x s)) = trace s @ [c x]"
  shows "\<exists>k. k \<le> length xs \<and> trace (snd (for_each body xs st)) = trace st @ map c (take k xs)
            \<and> (fst (for_each body xs st) = None \<longrightarrow> k = length xs)
            \<and> (k < length xs \<longrightarrow> fst (for_each body xs st) \<noteq> None)
            \<and> (xs \<noteq> [] \<longrightarrow> 0 < k)"
proof (induction xs arbitrary: st)
  case Nil
  show ?case by (simp add: ok_def)
next
  case (Cons x xs)
  obtain exn s where b: "body x st = (exn, s)" by (cases "body x st")
  from assms [of x st] b have t: "trace s = trace st @ [c x]" by simp
  show ?case
  proof (cases exn)
    case None
    from Cons.IH [of s] obtain k where k: "k \<le> length xs \<and> trace (snd (for_each body xs s)) = trace s @ map c (take k xs)
            \<and> (fst (for_each body xs s) = None \<longrightarrow> k = length xs)
            \<and> (k < length xs \<longrightarrow> fst (for_each body xs s) \<noteq> None)
            \<and> (xs \<noteq> [] \<longrightarrow> 0 < k)" ..
    show ?thesis
      by (rule exI [of _ "Suc k"]) (use k b None t in simp)
  next
    case (Some e)
    show ?thesis
      by (rule exI [of _ "Suc 0"]) (use b Some t in simp)
  qed
qed


section \<open>Reinitialization\<close>

lemma load_profile_extends:
  assumes P: "\<And>e. \<not> is_plugin_call e \<Longrightarrow> P e"
  shows "extends P st (snd (load_profile env fn st))"
  by (auto simp: load_profile_def ok_def raise_def extends_def P split: option.splits sum.splits)

lemma startswith_remove_all:
  assumes "startswith fn ''_''"
  shows "startswith (remove_all ''.yml'' fn) ''_''"
proof -
  from assms obtain cs where fn: "fn = CHR ''_'' # cs"
    by (cases fn) (auto simp: startswith_def)
  show ?thesis by (simp add: fn startswith_def)
qed

lemma load_profile_profiles_keys:
  assumes "\<forall>n. startswith n ''_'' \<longrightarrow> map_of (profiles st) n = None"
  shows "\<forall>n. startswith n ''_'' \<longrightarrow> map_of (profiles (snd (load_profile env fn st))) n = None"
  using assms
  by (auto simp: load_profile_def ok_def raise_def log_def update_conv' split: option.splits sum.splits)

lemma load_profile_templates_mono:
  assumes "map_of (templates st) n \<noteq> None"
  shows "map_of (templates (snd (load_profile env fn st))) n \<noteq> None"
  using assms
  by (auto simp: load_profile_def ok_def raise_def log_def update_conv' split: option.splits sum.splits)

lemma load_profile_template:
  assumes "fst (load_profile env fn st) = None" "endswith fn ''.yml''"
    "load_profile_yaml env (join (profile_dir env) fn) = Some s"
    "startswith (remove_all ''.yml'' fn) ''_''"
  shows "map_of (templates (snd (load_profile env fn st))) (remove_all ''.yml'' fn) \<noteq> None"
  using assms
  by (auto simp: load_profile_def ok_def raise_def log_def update_conv' split: option.splits sum.splits)

lemma watch_files_snd [simp]: "snd (watch_files env st) = st"
  by (simp add: watch_files_def ok_def raise_def split: option.splits)

lemma start_http_extends:
  assumes P: "\<And>e. \<not> is_plugin_call e \<Longrightarrow> P e"
  shows "extends P st (snd (start_http env cfg st))"
  by (simp add: start_http_def ok_def raise_def extends_def P split: sum.splits)


lemma init_http_fields:
  "conf (snd (init_http env st)) = conf st \<and> settings (snd (init_http env st)) = settings st
   \<and> profiles (snd (init_http env st)) = profiles st
   \<and> templates (snd (init_http env st)) = templates st
   \<and> emit (snd (init_http env st)) = emit st"
  by (simp add: init_http_def start_http_def seq_def ok_def raise_def log_def
        split: option.splits sum.splits prod.splits)

lemma init_http_extends:
  assumes P: "\<And>e. \<not> is_plugin_call e \<Longrightarrow> P e"
  shows "extends P st (snd (init_http env st))"
proof (cases "getitem env (Node (conf st)) ''hhd.http''")
  case (Inl e)
  then show ?thesis by (simp add: init_http_def raise_def extends_refl)
next
  case (Inr http_cfg)
  show ?thesis
  proof (cases "Some http_cfg = prev_http_cfg st")
    case True
    with Inr show ?thesis by (simp add: init_http_def ok_def extends_refl)
  next
    case False
    have 1: "extends P st (snd (if https st
                  then (case https_close env of
                          None \<Rightarrow> ok (log [HttpsClose] (st\<lparr>prev_http_cfg := Some http_cfg\<rparr>))
                        | Some e \<Rightarrow> raise e (log [HttpsClose] (st\<lparr>prev_http_cfg := Some http_cfg\<rparr>)))
                  else ok (st\<lparr>prev_http_cfg := Some http_cfg\<rparr>)))"
      by (simp add: ok_def raise_def extends_def P split: option.splits)
    have 2: "extends P s (snd (case getitem env http_cfg ''enable'' of
                     Inl e \<Rightarrow> raise e s
                   | Inr en \<Rightarrow>
                       (case to_bool env en of
                          Inl e \<Rightarrow> raise e s
                        | Inr enable \<Rightarrow> if enable then start_http env http_cfg s else ok s)))"
      for s :: "'a state"
      using start_http_extends [of P s env http_cfg, OF P]
      by (simp add: ok_def raise_def extends_refl split: sum.splits)
    from Inr False seq_extends [OF 1 2] show ?thesis by (simp add: init_http_def)
  qed
qed

lemma load_profile_fields:
  "conf (snd (load_profile env fn st)) = conf st \<and> settings (snd (load_profile env fn st)) = settings st
   \<and> emit (snd (load_profile env fn st)) = emit st"
  by (simp add: load_profile_def ok_def raise_def log_def split: option.splits sum.splits)

lemma reload_unfold:
  "reload plugs env st =
     seq (seq (seq (for_each (load_profile env) (listdir env (profile_dir env)) (reload_start plugs env st))
       (watch_files env)) (init_http env)) (\<lambda>st'. ok (st'\<lparr>should_initialize := False\<rparr>))"
  by (simp add: reload_def)

lemma reload_start_fields:
  "settings (reload_start plugs env st) = new_settings plugs env
   \<and> conf (reload_start plugs env st) =
       (case load_state_yaml env (state_fn env) (new_settings plugs env) of
          None \<Rightarrow> if conf st \<noteq> [] then conf st else get_default_state env (new_settings plugs env)
        | Some c \<Rightarrow> c)
   \<and> emit (reload_start plugs env st) = emit st
   \<and> profiles (reload_start plugs env st) = []
   \<and> templates (reload_start plugs env st) = []"
  by (simp add: reload_start_def load_state_def load_settings_def new_settings_def log_def
        split: option.splits)

lemma reload_start_extends:
  assumes P: "\<And>e. \<not> is_plugin_call e \<Longrightarrow> P e"
  shows "extends P st (reload_start plugs env st)"
  by (simp add: reload_start_def load_state_def load_settings_def log_def extends_def P
        split: option.splits)

lemma reload_field:
  assumes "\<And>fn s. g (snd (load_profile env fn s)) = g s"
    "\<And>s. g (snd (init_http env s)) = g s"
    "\<And>s. g (s\<lparr>should_initialize := False\<rparr>) = g s"
  shows "g (snd (reload plugs env st)) = g (reload_start plugs env st)"
proof -
  have "g (snd (reload plugs env st))
        = g (snd (seq (seq (for_each (load_profile env) (listdir env (profile_dir env)) (reload_start plugs env st))
       (watch_files env)) (init_http env)))"
    unfolding reload_unfold by (rule seq_field) (simp add: ok_def assms)
  also have "\<dots> = g (snd (seq (for_each (load_profile env) (listdir env (profile_dir env)) (reload_start plugs env st))
       (watch_files env)))"
    by (rule seq_field) (simp add: assms)
  also have "\<dots> = g (snd (for_each (load_profile env) (listdir env (profile_dir env)) (reload_start plugs env st)))"
    by (rule seq_field) simp
  also have "\<dots> = g (reload_start plugs env st)"
    by (rule for_each_field) (simp add: assms)
  finally show ?thesis .
qed

lemma reload_conf:
  "conf (snd (reload plugs env st)) =
       (case load_state_yaml env (state_fn env) (new_settings plugs env) of
          None \<Rightarrow> if conf st \<noteq> [] then conf st else get_default_state env (new_settings plugs env)
        | Some c \<Rightarrow> c)"
  using reload_field [of conf env plugs st] reload_start_fields [of plugs env st]
  by (simp add: load_profile_fields init_http_fields)

lemma reload_settings: "settings (snd (reload plugs env st)) = new_settings plugs env"
  using reload_field [of settings env plugs st] reload_start_fields [of plugs env st]
  by (simp add: load_profile_fields init_http_fields)

lemma reload_emit: "emit (snd (reload plugs env st)) = emit st"
  using reload_field [of emit env plugs st] reload_start_fields [of plugs env st]
  by (simp add: load_profile_fields init_http_fields)

lemma reload_extends:
  assumes P: "\<And>e. \<not> is_plugin_call e \<Longrightarrow> P e"
  shows "extends P st (snd (reload plugs env st))"
proof -
  have 0: "extends P st (snd (for_each (load_profile env) (listdir env (profile_dir env)) (reload_start plugs env st)))"
  proof (rule extends_trans)
    show "extends P st (reload_start plugs env st)" by (rule reload_start_extends [OF P])
    show "extends P (reload_start plugs env st)
            (snd (for_each (load_profile env) (listdir env (profile_dir env)) (reload_start plugs env st)))"
      by (rule for_each_extends) (rule load_profile_extends [OF P])
  qed
  have 1: "extends P st (snd (seq (for_each (load_profile env) (listdir env (profile_dir env)) (reload_start plugs env st))
       (watch_files env)))"
    by (rule seq_extends [OF 0]) (simp add: extends_refl)
  have 2: "extends P st (snd (seq (seq (for_each (load_profile env) (listdir env (profile_dir env)) (reload_start plugs env st))
       (watch_files env)) (init_http env)))"
    by (rule seq_extends [OF 1]) (rule init_http_extends [OF P])
  show ?thesis unfolding reload_unfold
    by (rule seq_extends [OF 2]) (simp add: ok_def extends_same)
qed

lemma reload_profiles_keys:
  "startswith n ''_'' \<Longrightarrow> map_of (profiles (snd (reload plugs env st))) n = None"
proof -
  let ?I = "\<lambda>s. \<forall>n. startswith n ''_'' \<longrightarrow> map_of (profiles s) n = None"
  have 0: "?I (snd (for_each (load_profile env) (listdir env (profile_dir env)) (reload_start plugs env st)))"
  proof (rule for_each_invariant [where I = ?I])
    fix x and s :: "'a state"
    assume "?I s"
    then show "?I (snd (load_profile env x s))" by (rule load_profile_profiles_keys)
  next
    show "?I (reload_start plugs env st)" by (simp add: reload_start_fields)
  qed
  have 1: "?I (snd (seq (for_each (load_profile env) (listdir env (profile_dir env)) (reload_start plugs env st))
       (watch_files env)))"
    by (rule seq_invariant [where I = ?I, OF 0]) simp
  have 2: "?I (snd (seq (seq (for_each (load_profile env) (listdir env (profile_dir env)) (reload_start plugs env st))
       (watch_files env)) (init_http env)))"
    by (rule seq_invariant [where I = ?I, OF 1]) (simp add: init_http_fields)
  have "?I (snd (reload plugs env st))" unfolding reload_unfold
    by (rule seq_invariant [where I = ?I, OF 2]) (simp add: ok_def)
  then show "startswith n ''_'' \<Longrightarrow> map_of (profiles (snd (reload plugs env st))) n = None"
    by simp
qed

lemma reload_template:
  assumes ok: "fst (reload plugs env st) = None"
    and fn: "fn \<in> set (listdir env (profile_dir env))" "endswith fn ''.yml''"
      "load_profile_yaml env (join (profile_dir env) fn) = Some s"
      "startswith (remove_all ''.yml'' fn) ''_''"
  shows "map_of (templates (snd (reload plugs env st))) (remove_all ''.yml'' fn) \<noteq> None"
proof -
  let ?Q = "\<lambda>s. map_of (templates s) (remove_all ''.yml'' fn) \<noteq> None"
  let ?r0 = "for_each (load_profile env) (listdir env (profile_dir env)) (reload_start plugs env st)"
  let ?r1 = "seq ?r0 (watch_files env)"
  let ?r2 = "seq ?r1 (init_http env)"
  from ok have ok2: "fst ?r2 = None" unfolding reload_unfold by (auto dest: seq_None)
  then have ok1: "fst ?r1 = None" by (auto dest: seq_None)
  then have ok0: "fst ?r0 = None" by (auto dest: seq_None)
  have 0: "?Q (snd ?r0)"
  proof (rule for_each_reaches [where Q = ?Q and x = fn, OF _ _ ok0 fn(1)])
    fix y and s :: "'a state"
    assume "?Q s"
    then show "?Q (snd (load_profile env y s))" by (rule load_profile_templates_mono)
  next
    fix s :: "'a state"
    assume "fst (load_profile env fn s) = None"
    then show "?Q (snd (load_profile env fn s))" by (rule load_profile_template [OF _ fn(2,3,4)])
  qed
  have t: "templates (snd (reload plugs env st)) = templates (snd ?r0)"
  proof -
    have "templates (snd (reload plugs env st)) = templates (snd ?r2)"
      unfolding reload_unfold by (rule seq_field) (simp add: ok_def)
    also have "\<dots> = templates (snd ?r1)" by (rule seq_field) (simp add: init_http_fields)
    also have "\<dots> = templates (snd ?r0)" by (rule seq_field) simp
    finally show ?thesis .
  qed
  from 0 show ?thesis unfolding t .
qed

section \<open>Events\<close>

lemma apply_event_extends:
  assumes P: "\<And>e. \<not> is_plugin_call e \<Longrightarrow> P e"
  shows "extends P st (snd (apply_event env ev st))"
  by (cases ev)
     (simp_all add: validate_profile_def ok_def raise_def extends_def P
        split: option.splits sum.splits)

lemma apply_event_fields:
  "should_initialize (snd (apply_event env ev st)) = should_initialize st
   \<and> emit (snd (apply_event env ev st)) = emit st
   \<and> settings (snd (apply_event env ev st)) = settings st
   \<and> templates (snd (apply_event env ev st)) = templates st"
  by (cases ev)
     (simp_all add: validate_profile_def ok_def raise_def log_def
        split: option.splits sum.splits)

lemma apply_event_keeps_changed:
  "settings_changed st \<Longrightarrow> settings_changed (snd (apply_event env ev st))"
  by (cases ev)
     (simp_all add: validate_profile_def ok_def raise_def log_def
        split: option.splits sum.splits)

lemma process_extends:
  assumes P: "\<And>e. \<not> is_plugin_call e \<Longrightarrow> P e"
  shows "extends P st (snd (process env st))"
proof -
  let ?st = "drain env st"
  have "extends P st ?st" by (rule extends_same) (simp add: drain_def)
  moreover have "extends P ?st (snd (process env st))"
    unfolding process_def by (rule for_each_extends) (rule apply_event_extends [OF P])
  ultimately show ?thesis by (rule extends_trans)
qed

lemma process_changed:
  assumes "Settings \<in> set (drained env st)" "fst (process env st) = None"
  shows "settings_changed (snd (process env st))"
  unfolding process_def
proof (rule for_each_reaches [where Q = settings_changed and x = Settings])
  fix y and s :: "'a state"
  assume "settings_changed s"
  then show "settings_changed (snd (apply_event env y s))" by (rule apply_event_keeps_changed)
next
  fix s :: "'a state"
  show "settings_changed (snd (apply_event env Settings s))" by (simp add: ok_def)
next
  from assms(2) show "fst (for_each (apply_event env) (drained env st) (drain env st)) = None"
    by (simp add: process_def)
next
  from assms(1) show "Settings \<in> set (drained env st)" .
qed

lemma drained_events: "drained env st = events (emit st) @ arrived env"
  by (simp add: drained_def take_events_def emit_call_def notify_all_def)

lemma configure_extends:
  assumes P: "\<And>e. \<not> is_plugin_call e \<Longrightarrow> P e"
  shows "extends P st (snd (configure plugs env st))"
  by (simp add: configure_def reload_extends [OF P] ok_def extends_refl)

lemma configure_emit: "emit (snd (configure plugs env st)) = emit st"
  by (simp add: configure_def reload_emit ok_def)

lemma validate_live_extends: "extends P st (snd (validate_live env st))"
  by (simp add: validate_live_def ok_def raise_def extends_def split: sum.splits)

lemma validate_live_fields:
  "settings_changed (snd (validate_live env st)) = settings_changed st
   \<and> should_initialize (snd (validate_live env st)) = should_initialize st"
  by (simp add: validate_live_def ok_def raise_def split: sum.splits)

lemma flag_settings_extends: "extends P st (snd (flag_settings st))"
  by (simp add: flag_settings_def ok_def extends_def)

lemma before_plugins_extends:
  assumes P: "\<And>e. \<not> is_plugin_call e \<Longrightarrow> P e"
  shows "extends P st (snd (before_plugins plugs env st))"
  unfolding before_plugins_def
  by (intro seq_extends configure_extends process_extends validate_live_extends
        flag_settings_extends P)

lemma before_plugins_settings:
  assumes "Settings \<in> set (drained env st)" "fst (before_plugins plugs env st) = None"
  shows "settings_changed (snd (before_plugins plugs env st))
         \<and> should_initialize (snd (before_plugins plugs env st))"
proof -
  let ?r1 = "configure plugs env st"
  let ?r2 = "seq ?r1 (process env)"
  let ?r3 = "seq ?r2 (validate_live env)"
  from assms(2) have ok3: "fst ?r3 = None" and e4: "before_plugins plugs env st = flag_settings (snd ?r3)"
    unfolding before_plugins_def by (auto dest: seq_None)
  from ok3 have ok2: "fst ?r2 = None" and e3: "?r3 = validate_live env (snd ?r2)"
    by (auto dest: seq_None)
  from ok2 have ok1: "fst ?r1 = None" and e2: "?r2 = process env (snd ?r1)"
    by (auto dest: seq_None)
  have "drained env (snd ?r1) = drained env st"
    by (simp add: drained_events configure_emit)
  with assms(1) have "Settings \<in> set (drained env (snd ?r1))" by simp
  from process_changed [OF this] ok2 e2 have "settings_changed (snd ?r2)" by simp
  with e3 have "settings_changed (snd ?r3)" by (simp add: validate_live_fields)
  then show ?thesis unfolding e4 by (simp add: flag_settings_def ok_def)
qed

section \<open>Plugins\<close>

lemma prepare_plugin_trace:
  "trace (snd (prepare_plugin p st)) = trace st @ [CallPrepare (p_name p)]"
  by (simp add: prepare_plugin_def split: prod.splits)

lemma update_plugin_trace:
  "trace (snd (update_plugin p st)) = trace st @ [CallUpdate (p_name p)]"
  by (simp add: update_plugin_def split: prod.splits)

lemma open_plugin_trace:
  "trace (snd (open_plugin p st)) = trace st @ [CallOpen (p_name p)]"
  by (simp add: open_plugin_def split: prod.splits)

lemma close_plugin_trace:
  "trace (snd (close_plugin p st)) = trace st @ [CallClose (p_name p)]"
  by (simp add: close_plugin_def split: prod.splits)

lemma plugin_fields:
  "settings_changed (snd (prepare_plugin p st)) = settings_changed st
   \<and> settings_changed (snd (update_plugin p st)) = settings_changed st
   \<and> should_initialize (snd (prepare_plugin p st)) = should_initialize st
   \<and> should_initialize (snd (update_plugin p st)) = should_initialize st"
  by (simp add: prepare_plugin_def update_plugin_def log_def split: prod.splits)

lemma plugin_loop_calls:
  assumes "\<not> settings_changed st"
  shows "\<exists>k. trace (snd (plugin_loop plugs st)) = trace st @ take k (run_calls plugs)
            \<and> (fst (plugin_loop plugs st) = None \<longrightarrow> k = length (run_calls plugs))"
proof -
  let ?r1 = "for_each prepare_plugin (rev plugs) st"
  from for_each_calls [of prepare_plugin "\<lambda>p. CallPrepare (p_name p)" "rev plugs" st, OF prepare_plugin_trace]
  obtain k where k: "k \<le> length (rev plugs) \<and> trace (snd ?r1) = trace st @ map (\<lambda>p. CallPrepare (p_name p)) (take k (rev plugs))
            \<and> (fst ?r1 = None \<longrightarrow> k = length (rev plugs))
            \<and> (k < length (rev plugs) \<longrightarrow> fst ?r1 \<noteq> None)
            \<and> (rev plugs \<noteq> [] \<longrightarrow> 0 < k)" ..
  show ?thesis
  proof (cases "fst ?r1")
    case (Some e)
    then have "plugin_loop plugs st = ?r1" using assms
      by (cases ?r1) (simp add: plugin_loop_def)
    with k Some show ?thesis
      by (intro exI [of _ k]) (simp add: run_calls_def take_map)
  next
    case None
    then have e: "plugin_loop plugs st = for_each update_plugin plugs (snd ?r1)" using assms
      by (cases ?r1) (simp add: plugin_loop_def)
    from None k have t1: "trace (snd ?r1) = trace st @ map (\<lambda>p. CallPrepare (p_name p)) (rev plugs)"
      by simp
    from for_each_calls [of update_plugin "\<lambda>p. CallUpdate (p_name p)" plugs "snd ?r1", OF update_plugin_trace]
    obtain j where j: "j \<le> length plugs \<and> trace (snd (for_each update_plugin plugs (snd ?r1)))
              = trace (snd ?r1) @ map (\<lambda>p. CallUpdate (p_name p)) (take j plugs)
            \<and> (fst (for_each update_plugin plugs (snd ?r1)) = None \<longrightarrow> j = length plugs)
            \<and> (j < length plugs \<longrightarrow> fst (for_each update_plugin plugs (snd ?r1)) \<noteq> None)
            \<and> (plugs \<noteq> [] \<longrightarrow> 0 < j)" ..
    show ?thesis
      by (intro exI [of _ "length plugs + j"]) (use e t1 j in \<open>simp add: run_calls_def take_map\<close>)
  qed
qed

lemma plugin_loop_skipped: "settings_changed st \<Longrightarrow> plugin_loop plugs st = (None, st)"
  by (simp add: plugin_loop_def ok_def)

lemma plugin_loop_extends:
  assumes P: "\<And>n. P (CallPrepare n)" "\<And>n. P (CallUpdate n)"
  shows "extends P st (snd (plugin_loop plugs st))"
proof (cases "settings_changed st")
  case True
  then show ?thesis by (simp add: plugin_loop_skipped extends_refl)
next
  case False
  from plugin_loop_calls [OF False, of plugs] obtain k where
    "trace (snd (plugin_loop plugs st)) = trace st @ take k (run_calls plugs)" by blast
  moreover have "list_all P (take k (run_calls plugs))"
    by (auto simp: list_all_iff run_calls_def P dest!: in_set_takeD)
  ultimately show ?thesis by (rule extendsI)
qed

lemma plugin_loop_fields:
  "settings_changed (snd (plugin_loop plugs st)) = settings_changed st
   \<and> should_initialize (snd (plugin_loop plugs st)) = should_initialize st"
proof (cases "settings_changed st")
  case True
  then show ?thesis by (simp add: plugin_loop_skipped)
next
  case False
  have 1: "g (snd (plugin_loop plugs st)) = g st"
    if "\<And>p s. g (snd (prepare_plugin p s)) = g s" "\<And>p s. g (snd (update_plugin p s)) = g s"
    for g :: "'a state \<Rightarrow> bool"
  proof -
    have "g (snd (plugin_loop plugs st)) = g (snd (for_each prepare_plugin (rev plugs) st))"
      using False unfolding plugin_loop_def
      by (simp add: seq_field [where g = g and f = "for_each update_plugin plugs", OF for_each_field [where g = g, OF that(2)]])
    also have "\<dots> = g st" by (rule for_each_field) (rule that(1))
    finally show ?thesis .
  qed
  show ?thesis by (simp add: 1 plugin_fields)
qed

section \<open>Saving\<close>

lemma save_phase_trace:
  "trace (save_phase env st) =
     trace st @ save_effects env st
       @ (if \<not> should_initialize st \<and> saved env st then [Sleep MODIFY_DELAY] else [])"
  by (simp add: save_phase_def)

lemma save_phase_flag:
  "should_initialize (save_phase env st) =
     (if should_initialize st then True
      else if saved env st then False
      else poll_while_saving env)"
  by (simp add: save_phase_def log_def)

lemma save_profiles_quiet:
  "list_all (\<lambda>e. \<not> is_plugin_call e \<and> e \<noteq> Sleep MODIFY_DELAY)
     (fst (save_profiles env s objs ps))"
  by (induction ps) (auto simp: write_profile_def)

lemma save_effects_quiet:
  "list_all (\<lambda>e. \<not> is_plugin_call e \<and> e \<noteq> Sleep MODIFY_DELAY) (save_effects env st)"
  by (simp add: save_effects_def save_state_def save_template_def write_profile_def save_profiles_quiet)

lemma save_profiles_filter:
  "filter is_save_profile (fst (save_profiles env s objs ps))
     = map (\<lambda>np. SaveProfile (profile_fn env (fst np)) s (Some (objs (snd np)))) ps"
  by (induction ps) (auto simp: write_profile_def)

lemma save_effects_filter:
  "filter is_save_profile (save_effects env st)
     = map (\<lambda>np. SaveProfile (profile_fn env (fst np)) (settings st)
                    (Some (objects st (snd np)))) (profiles st)
       @ [SaveProfile (join (profile_dir env) ''_template.yml'') (settings st)
            (map_option (objects st) (map_of (templates st) ''_template''))]"
  by (simp add: save_effects_def save_state_def save_template_def write_profile_def save_profiles_filter)

lemma save_phase_extends:
  assumes P: "\<And>e. \<not> is_plugin_call e \<Longrightarrow> P e"
  shows "extends P st (save_phase env st)"
proof (rule extendsI [OF save_phase_trace])
  have "list_all P (save_effects env st)"
    using save_effects_quiet [of env st] by (auto simp: list_all_iff P)
  then show "list_all P (save_effects env st
       @ (if \<not> should_initialize st \<and> saved env st then [Sleep MODIFY_DELAY] else []))"
    by (simp add: P)
qed

lemma after_plugins_extends:
  assumes P: "\<And>e. \<not> is_plugin_call e \<Longrightarrow> P e"
  shows "extends P st (after_plugins env st)"
proof -
  have 1: "extends P s (notify_http s)" for s :: "'a state"
    by (simp add: notify_http_def extends_def P)
  have 2: "extends P s (wait_phase env s)" for s :: "'a state"
    by (simp add: wait_phase_def extends_def P)
  show ?thesis unfolding after_plugins_def
    by (rule extends_trans [OF extends_trans [OF save_phase_extends [OF P] 1] 2])
qed

lemma after_plugins_flag:
  "should_initialize (after_plugins env st) = (should_initialize (save_phase env st) \<or> poll_late env)"
  by (simp add: after_plugins_def wait_phase_def notify_http_def log_def)

section \<open>One generation\<close>

lemma generation_extends:
  assumes P: "\<And>e. \<not> is_plugin_call e \<Longrightarrow> P e" "\<And>n. P (CallPrepare n)" "\<And>n. P (CallUpdate n)"
  shows "extends P st (snd (generation plugs env st))"
  unfolding generation_def
proof (intro seq_extends)
  show "extends P st (snd (before_plugins plugs env st))" by (rule before_plugins_extends [OF P(1)])
  show "extends P s (snd (plugin_loop plugs s))" for s by (rule plugin_loop_extends [OF P(2,3)])
  show "extends P s (snd (ok (after_plugins env s)))" for s
    by (simp add: ok_def after_plugins_extends [OF P(1)])
qed

lemma generation_settings:
  assumes "Settings \<in> set (drained env st)"
  shows "extends (\<lambda>e. \<not> is_plugin_call e) st (snd (generation plugs env st))"
    and "fst (generation plugs env st) = None \<Longrightarrow>
           generation plugs env st = (None, after_plugins env (snd (before_plugins plugs env st)))
           \<and> should_initialize (snd (before_plugins plugs env st))"
proof -
  let ?r = "before_plugins plugs env st"
  have q: "extends (\<lambda>e. \<not> is_plugin_call e) st (snd ?r)" by (rule before_plugins_extends) simp
  have g: "generation plugs env st = (None, after_plugins env (snd ?r))
           \<and> should_initialize (snd ?r) \<and> settings_changed (snd ?r)" if "fst ?r = None"
  proof -
    from before_plugins_settings [OF assms that]
    have s: "settings_changed (snd ?r)" "should_initialize (snd ?r)" by simp_all
    from that have "generation plugs env st = seq (plugin_loop plugs (snd ?r)) (\<lambda>st'. ok (after_plugins env st'))"
      unfolding generation_def by (simp add: seq_pass)
    with s show ?thesis by (simp add: plugin_loop_skipped ok_def)
  qed
  show "extends (\<lambda>e. \<not> is_plugin_call e) st (snd (generation plugs env st))"
  proof (cases "fst ?r")
    case None
    from g [OF None] have "snd (generation plugs env st) = after_plugins env (snd ?r)" by simp
    with extends_trans [OF q after_plugins_extends [of "\<lambda>e. \<not> is_plugin_call e" "snd ?r" env]]
    show ?thesis by simp
  next
    case (Some e)
    then have "generation plugs env st = ?r" unfolding generation_def by (simp add: seq_fail)
    with q show ?thesis by simp
  qed
  show "generation plugs env st = (None, after_plugins env (snd ?r)) \<and> should_initialize (snd ?r)"
    if "fst (generation plugs env st) = None"
  proof -
    from that have "fst ?r = None" unfolding generation_def by (auto dest: seq_None)
    from g [OF this] show ?thesis by simp
  qed
qed

lemma filter_no_run: "list_all (\<lambda>e. \<not> is_plugin_call e) es \<Longrightarrow> filter is_run es = []"
proof -
  have "is_run e \<Longrightarrow> is_plugin_call e" for e by (cases e) simp_all
  then show "list_all (\<lambda>e. \<not> is_plugin_call e) es \<Longrightarrow> filter is_run es = []"
    by (auto simp: list_all_iff filter_empty_conv)
qed


section \<open>The loop and shutdown\<close>

lemma main_loop_extends:
  assumes P: "\<And>e. \<not> is_plugin_call e \<Longrightarrow> P e" "\<And>n. P (CallPrepare n)" "\<And>n. P (CallUpdate n)"
  shows "main_loop plugs envs st = Some r \<Longrightarrow> extends P st (snd r)"
proof (induction envs arbitrary: st)
  case Nil
  then have "r = (None, st)" by (simp add: ok_def split: if_splits)
  then show ?case by (simp add: extends_refl)
next
  case (Cons env envs)
  show ?case
  proof (cases "should_exit st")
    case True
    with Cons.prems have "r = (None, st)" by (simp add: ok_def)
    then show ?thesis by (simp add: extends_refl)
  next
    case False
    obtain exn st' where g: "generation plugs env st = (exn, st')" by (cases "generation plugs env st")
    from generation_extends [of P st plugs env, OF P] g have e: "extends P st st'" by simp
    show ?thesis
    proof (cases exn)
      case None
      with False g Cons.prems have "main_loop plugs envs st' = Some r" by simp
      from extends_trans [OF e Cons.IH [OF this]] show ?thesis .
    next
      case (Some x)
      with False g Cons.prems have "r = (Some x, st')" by simp
      with e show ?thesis by simp
    qed
  qed
qed

lemma for_each_ok:
  assumes "\<And>x s. x \<in> set xs \<Longrightarrow> fst (body x s) = None"
  shows "fst (for_each body xs st) = None"
  using assms
proof (induction xs arbitrary: st)
  case Nil
  show ?case by (simp add: ok_def)
next
  case (Cons x xs)
  from Cons.prems [of x st] have "fst (body x st) = None" by simp
  then have "for_each body (x # xs) st = for_each body xs (snd (body x st))"
    by (simp add: seq_pass)
  with Cons.IH [of "snd (body x st)"] Cons.prems show ?case by simp
qed

lemma try_block_extends:
  assumes "try_block plugins envs st = Some r"
  shows "extends (opened_ok (map p_name (discovered plugins))) st (snd r)"
proof -
  let ?P = "opened_ok (map p_name (discovered plugins))"
  let ?S = "sorted_plugins plugins"
  have P: "\<And>e. \<not> is_plugin_call e \<Longrightarrow> ?P e" "\<And>n. ?P (CallPrepare n)" "\<And>n. ?P (CallUpdate n)"
  proof -
    fix e show "\<not> is_plugin_call e \<Longrightarrow> ?P e" by (cases e) (simp_all add: opened_ok_def)
  qed (simp_all add: opened_ok_def)
  show ?thesis
  proof (cases "?S = []")
    case True
    with assms have "r = (None, st)" by (simp add: try_block_def ok_def)
    then show ?thesis by (simp add: extends_refl)
  next
    case False
    obtain exn st' where o: "for_each open_plugin ?S st = (exn, st')"
      by (cases "for_each open_plugin ?S st")
    from for_each_calls [of open_plugin "\<lambda>p. CallOpen (p_name p)" ?S st, OF open_plugin_trace] o
    obtain k where "trace st' = trace st @ map (\<lambda>p. CallOpen (p_name p)) (take k ?S)" by auto
    moreover have "list_all ?P (map (\<lambda>p. CallOpen (p_name p)) (take k ?S))"
    proof -
      have "set (take k ?S) \<subseteq> set (discovered plugins)"
        using set_take_subset [of k ?S] by (simp add: sorted_plugins_def)
      then show ?thesis by (auto simp: list_all_iff opened_ok_def)
    qed
    ultimately have e: "extends ?P st st'" by (rule extendsI)
    show ?thesis
    proof (cases exn)
      case None
      with False o assms have "main_loop ?S envs st' = Some r" by (simp add: try_block_def)
      from extends_trans [OF e main_loop_extends [of ?P, OF P this]] show ?thesis .
    next
      case (Some x)
      with False o assms have "r = (Some x, st')" by (simp add: try_block_def)
      with e show ?thesis by simp
    qed
  qed
qed

lemma close_http_trace:
  "\<exists>es. trace (snd (close_http env st)) = trace st @ es \<and> filter is_close es = []
        \<and> list_all (\<lambda>e. \<forall>n. e \<noteq> CallOpen n) es"
  by (simp add: close_http_def ok_def raise_def split: option.splits)

lemma close_http_ok:
  "https_close env = None \<Longrightarrow> fst (close_http env st) = None"
  by (simp add: close_http_def ok_def)

section \<open>The event bus\<close>


lemma events_notify_all: "events (notify_all h) = events h"
  by (simp add: notify_all_def)

lemma events_emit_call:
  "events (emit_call event h) = events h @ (case event of Inl ev \<Rightarrow> [ev] | Inr evs \<Rightarrow> evs)"
  by (cases event) (simp_all add: emit_call_def events_notify_all)

lemma step_conserves:
  "step a h = (h', out) \<Longrightarrow>
     (case out of None \<Rightarrow> [] | Some evs \<Rightarrow> evs) @ events h' = events h @ emitted [a]"
proof (cases a)
  case (Emit event)
  assume "step a h = (h', out)"
  with Emit show ?thesis
    by (cases event) (auto simp: events_emit_call)
next
  case Signal
  assume "step a h = (h', out)"
  with Signal show ?thesis by (auto simp: events_notify_all)
next
  case (GetEvents t)
  assume "step a h = (h', out)"
  with GetEvents show ?thesis
    by (auto simp: get_events_def take_events_def split: if_splits)
next
  case Resume
  assume "step a h = (h', out)"
  with Resume show ?thesis
    by (auto simp: resume_def take_events_def split: if_splits)
qed

lemma emitted_Cons: "emitted (a # as) = emitted [a] @ emitted as"
  by (induction "a # as" rule: emitted.induct) auto

lemma run_conserves:
  "concat (snd (run as h)) @ events (fst (run as h)) = events h @ emitted as"
proof (induction as arbitrary: h)
  case Nil
  show ?case by simp
next
  case (Cons a as)
  obtain h' out where st: "step a h = (h', out)" by (cases "step a h")
  obtain h'' outs where rn: "run as h' = (h'', outs)" by (cases "run as h'")
  from Cons.IH [of h'] rn have ih: "concat outs @ events h'' = events h' @ emitted as" by simp
  from step_conserves [OF st]
  have sc: "(case out of None \<Rightarrow> [] | Some evs \<Rightarrow> evs) @ events h' = events h @ emitted [a]" .
  have "concat (snd (run (a # as) h)) @ events (fst (run (a # as) h))
        = (case out of None \<Rightarrow> [] | Some evs \<Rightarrow> evs) @ concat outs @ events h''"
    using st rn by (cases out) simp_all
  also have "\<dots> = (case out of None \<Rightarrow> [] | Some evs \<Rightarrow> evs) @ events h' @ emitted as"
    using ih by simp
  also have "\<dots> = events h @ emitted [a] @ emitted as"
    using sc by (metis append_assoc)
  finally show ?case using emitted_Cons [of a as] by simp
qed

lemma step_drain:
  "step a h = (h', Some evs) \<Longrightarrow> evs = events h \<and> events h' = [] \<and> consumer h' = Idle"
  by (cases a) (auto simp: get_events_def take_events_def resume_def split: if_splits)


lemma all_producers_run:
  "list_all producer_step as \<Longrightarrow>
     snd (run as h) = [] \<and> events (fst (run as h)) = events h @ emitted as
     \<and> consumer (fst (run as h)) = (if consumer h = Waiting \<and> as \<noteq> [] then Woken else consumer h)"
proof (induction as arbitrary: h)
  case Nil
  show ?case by simp
next
  case (Cons a as)
  from Cons.prems have pa: "producer_step a" and pas: "list_all producer_step as" by simp_all
  obtain h' where st: "step a h = (h', None)" and ev: "events h' = events h @ emitted [a]"
    and co: "consumer h' = (if consumer h = Waiting then Woken else consumer h)"
    using pa
  proof (cases a)
    case (Emit event)
    then show ?thesis using that [of "emit_call event h"]
      by (cases event) (auto simp: emit_call_def notify_all_def)
  next
    case Signal
    then show ?thesis using that [of "notify_all h"] by (auto simp: notify_all_def)
  qed simp_all
  from Cons.IH [OF pas, of h'] st ev co show ?case
    using emitted_Cons [of a as] by (auto split: prod.splits)
qed


section \<open>The order of the plugins\<close>

lemma sorted_plugins_sorted: "sorted (map p_priority (sorted_plugins P))"
  by (simp add: sorted_plugins_def)

lemma sorted_plugins_stable:
  "filter (\<lambda>p. p_priority p = k) (sorted_plugins P) = filter (\<lambda>p. p_priority p = k) (discovered P)"
  by (simp add: sorted_plugins_def sort_key_stable)

lemma sorted_plugins_mset: "mset (sorted_plugins P) = mset (discovered P)"
  by (simp add: sorted_plugins_def)

lemma rev_desc: "sorted_wrt (\<ge>) (map p_priority (rev (sorted_plugins P)))"
  using sorted_plugins_sorted [of P] by (simp add: sorted_wrt_rev flip: rev_map)

lemma rev_stable: "filter (\<lambda>p. p_priority p = k) (rev (sorted_plugins P)) = rev (filter (\<lambda>p. p_priority p = k) (discovered P))"
  by (simp add: sorted_plugins_stable flip: rev_filter)



section \<open>Merging configuration trees\<close>











lemmas run_defs =
  main_def try_block_def finally_block_def close_http_def sorted_plugins_def discovered_def
  idle_plugin_def open_plugin_def close_plugin_def generation_def before_plugins_def
  after_plugins_def configure_def reload_def reload_start_def load_settings_def new_settings_def
  load_state_def load_profile_def watch_files_def init_http_def start_http_def process_def
  drained_def plugin_loop_def prepare_plugin_def update_plugin_def save_phase_def
  save_effects_def saved_def save_state_def save_template_def write_profile_def notify_http_def
  wait_phase_def has_events_def flag_settings_def state_fn_def token_fn_def profile_dir_def
  profile_fn_def join_def CONFIG_DIR_def startswith_def endswith_def take_events_def
  emit_call_def notify_all_def validate_live_def initial_state_def quiet_env_def seq_def ok_def
  raise_def log_def new_effects_def run_calls_def receive_def validate_profile_def drain_def

section \<open>More on one generation\<close>

lemma after_plugins_changed: "settings_changed (after_plugins env st) = settings_changed st"
  by (simp add: after_plugins_def wait_phase_def notify_http_def save_phase_def)

lemma filter_run_calls: "filter is_run (run_calls plugs) = run_calls plugs"
  by (simp add: run_calls_def filter_id_conv)

lemma generation_runs:
  assumes "fst (generation plugs env st) = None"
    "\<not> settings_changed (snd (generation plugs env st))"
  shows "filter is_run (new_effects st (snd (generation plugs env st))) = run_calls plugs"
proof -
  let ?r1 = "before_plugins plugs env st"
  let ?s1 = "snd ?r1"
  let ?r2 = "plugin_loop plugs ?s1"
  let ?s2 = "snd ?r2"
  from assms(1) have a: "fst (seq ?r1 (plugin_loop plugs)) = None"
    unfolding generation_def by (auto dest: seq_None)
  then have ok1: "fst ?r1 = None" by (auto dest: seq_None)
  then have e2: "seq ?r1 (plugin_loop plugs) = ?r2" by (rule seq_pass)
  with a have ok2: "fst ?r2 = None" by simp
  have g: "generation plugs env st = (None, after_plugins env ?s2)"
    unfolding generation_def e2 using ok2 by (simp add: seq_pass ok_def)
  from assms(2) g have "\<not> settings_changed ?s2" by (simp add: after_plugins_changed)
  then have n1: "\<not> settings_changed ?s1" by (simp add: plugin_loop_fields)
  from plugin_loop_calls [OF n1, of plugs] ok2
  have t2: "trace ?s2 = trace ?s1 @ run_calls plugs" by auto
  from extendsD [OF before_plugins_extends [of "\<lambda>e. \<not> is_plugin_call e" st plugs env]]
  obtain q1 where q1: "trace ?s1 = trace st @ q1" "list_all (\<lambda>e. \<not> is_plugin_call e) q1" by auto
  from extendsD [OF after_plugins_extends [of "\<lambda>e. \<not> is_plugin_call e" ?s2 env]]
  obtain q2 where q2: "trace (after_plugins env ?s2) = trace ?s2 @ q2"
    "list_all (\<lambda>e. \<not> is_plugin_call e) q2" by auto
  have "trace (snd (generation plugs env st)) = trace st @ (q1 @ run_calls plugs @ q2)"
    by (simp add: g q2(1) t2 q1(1))
  from new_effects_append [OF this] show ?thesis
    by (simp add: filter_no_run [OF q1(2)] filter_no_run [OF q2(2)] filter_run_calls)
qed

section \<open>Claims\<close>

text \<open>
  Claim C1, as the code has it. In a generation whose drained batch holds a \<open>Settings\<close>
  event no plugin's \<open>prepare\<close> or \<open>update\<close> is called, whatever else happens; and when
  the generation is not cut short by a failure (of reinitialization, of an event's
  validation, or of the validation of the live Config, which all come before the flag is set),
  the reinitialize flag is set when the generation ends.
\<close>

theorem settings_event_defers_plugins:
  assumes "Settings \<in> set (drained env st)"
  shows "filter is_run (new_effects st (snd (generation plugs env st))) = []
         \<and> (fst (generation plugs env st) = None
              \<longrightarrow> should_initialize (snd (generation plugs env st)))"
proof -
  from extends_new [OF generation_settings(1) [OF assms, of plugs]]
  have "list_all (\<lambda>e. \<not> is_plugin_call e) (new_effects st (snd (generation plugs env st)))"
    by simp
  then have 1: "filter is_run (new_effects st (snd (generation plugs env st))) = []"
    by (rule filter_no_run)
  have 2: "should_initialize (snd (generation plugs env st))"
    if "fst (generation plugs env st) = None"
    using generation_settings(2) [OF assms that]
    by (simp add: after_plugins_flag save_phase_flag)
  from 1 2 show ?thesis by simp
qed

text \<open>A first generation in which a plugin emitted \<open>Settings\<close>.\<close>

theorem settings_event_defers_plugins_witness:
  "Settings \<in> set (drained (quiet_env\<lparr>arrived := [Settings]\<rparr>) (initial_state ()))
   \<and> filter is_run
        (new_effects (initial_state ())
           (snd (generation [idle_plugin ''A'' 5] (quiet_env\<lparr>arrived := [Settings]\<rparr>)
                   (initial_state ())))) = []
   \<and> fst (generation [idle_plugin ''A'' 5] (quiet_env\<lparr>arrived := [Settings]\<rparr>)
             (initial_state ())) = None
   \<and> should_initialize
        (snd (generation [idle_plugin ''A'' 5] (quiet_env\<lparr>arrived := [Settings]\<rparr>)
                (initial_state ())))"
proof -
  have h: "Settings \<in> set (drained (quiet_env\<lparr>arrived := [Settings]\<rparr>) (initial_state ()))"
    by (simp add: run_defs)
  have ok: "fst (generation [idle_plugin ''A'' 5] (quiet_env\<lparr>arrived := [Settings]\<rparr>)
             (initial_state ())) = None"
    by (simp add: run_defs)
  from settings_event_defers_plugins [OF h, of "[idle_plugin ''A'' 5]"] h ok
  show ?thesis by simp
qed

text \<open>
  The batch holds a \<open>State\<close> event with a value that the validation of the live Config
  rejects, and then a \<open>Settings\<close> event: \<open>validate_config\<close> raises before
  \<open>should_initialize.set()\<close> is reached, and the generation ends with the flag not set.
\<close>

theorem settings_event_flag_counterexample:
  "Settings \<in> set (drained
       (quiet_env\<lparr>arrived := [State (Sent 0), Settings],
                  sent := [(0, [(''x'', Leaf (VStr ''bad''))])],
                  validate_config := (\<lambda>c s d. if map_of c ''x'' = Some (Leaf (VStr ''bad''))
                                               then Inl ValidationFailure else Inr c)\<rparr>)
       (initial_state ()))
   \<and> fst (generation [idle_plugin ''A'' 5]
       (quiet_env\<lparr>arrived := [State (Sent 0), Settings],
                  sent := [(0, [(''x'', Leaf (VStr ''bad''))])],
                  validate_config := (\<lambda>c s d. if map_of c ''x'' = Some (Leaf (VStr ''bad''))
                                               then Inl ValidationFailure else Inr c)\<rparr>)
       (initial_state ())) = Some ValidationFailure
   \<and> \<not> should_initialize (snd (generation [idle_plugin ''A'' 5]
       (quiet_env\<lparr>arrived := [State (Sent 0), Settings],
                  sent := [(0, [(''x'', Leaf (VStr ''bad''))])],
                  validate_config := (\<lambda>c s d. if map_of c ''x'' = Some (Leaf (VStr ''bad''))
                                               then Inl ValidationFailure else Inr c)\<rparr>)
       (initial_state ())))"
  by (simp add: run_defs)

text \<open>
  Claim C2, as the code has it. \<open>sorted_plugins\<close> is the discovered plugins in rising
  priority, plugins of one priority in discovery order. A generation that completes and runs
  the plugins calls \<open>prepare\<close> along the reversed list, that is in falling priority with
  plugins of one priority in reverse discovery order, and then \<open>update\<close> along the list.
  The list is an argument of the loop: it is computed once, before the plugins are opened.
\<close>

theorem plugin_order:
  "sorted (map p_priority (sorted_plugins P))
   \<and> filter (\<lambda>p. p_priority p = k) (sorted_plugins P)
       = filter (\<lambda>p. p_priority p = k) (discovered P)
   \<and> mset (sorted_plugins P) = mset (discovered P)
   \<and> sorted_wrt (\<ge>) (map p_priority (rev (sorted_plugins P)))
   \<and> filter (\<lambda>p. p_priority p = k) (rev (sorted_plugins P))
       = rev (filter (\<lambda>p. p_priority p = k) (discovered P))
   \<and> (fst (generation (sorted_plugins P) env st) = None
        \<and> \<not> settings_changed (snd (generation (sorted_plugins P) env st))
      \<longrightarrow> filter is_run (new_effects st (snd (generation (sorted_plugins P) env st)))
            = map (\<lambda>p. CallPrepare (p_name p)) (rev (sorted_plugins P))
              @ map (\<lambda>p. CallUpdate (p_name p)) (sorted_plugins P))"
  using sorted_plugins_sorted [of P] sorted_plugins_stable [of k P] sorted_plugins_mset [of P]
    rev_desc [of P] rev_stable [of k P] generation_runs [of "sorted_plugins P" env st]
  by (simp add: run_calls_def)

text \<open>The priorities 10, 5, 20 of the specification.\<close>

theorem plugin_order_witness:
  "fst (generation
          (sorted_plugins [(''x'', [idle_plugin ''A'' 10, idle_plugin ''B'' 5, idle_plugin ''C'' 20])])
          quiet_env (initial_state ())) = None
   \<and> \<not> settings_changed (snd (generation
          (sorted_plugins [(''x'', [idle_plugin ''A'' 10, idle_plugin ''B'' 5, idle_plugin ''C'' 20])])
          quiet_env (initial_state ())))
   \<and> filter is_run (new_effects (initial_state ()) (snd (generation
          (sorted_plugins [(''x'', [idle_plugin ''A'' 10, idle_plugin ''B'' 5, idle_plugin ''C'' 20])])
          quiet_env (initial_state ()))))
       = [CallPrepare ''C'', CallPrepare ''A'', CallPrepare ''B'',
          CallUpdate ''B'', CallUpdate ''A'', CallUpdate ''C'']"
proof -
  let ?P = "[(''x'', [idle_plugin ''A'' 10, idle_plugin ''B'' 5, idle_plugin ''C'' 20])]"
  have ok: "fst (generation (sorted_plugins ?P) quiet_env (initial_state ())) = None
     \<and> \<not> settings_changed (snd (generation (sorted_plugins ?P) quiet_env (initial_state ())))"
    by (simp add: run_defs)
  have s: "map p_name (sorted_plugins ?P) = [''B'', ''A'', ''C'']"
    by (simp add: sorted_plugins_def discovered_def idle_plugin_def)
  have m: "map (\<lambda>p. CallPrepare (p_name p)) (rev (sorted_plugins ?P))
              @ map (\<lambda>p. CallUpdate (p_name p)) (sorted_plugins ?P)
        = map CallPrepare (rev (map p_name (sorted_plugins ?P)))
              @ map CallUpdate (map p_name (sorted_plugins ?P))"
    by (simp add: rev_map)
  from plugin_order [of ?P 0 quiet_env "initial_state ()"] ok
  have "filter is_run (new_effects (initial_state ())
          (snd (generation (sorted_plugins ?P) quiet_env (initial_state ()))))
       = map CallPrepare (rev (map p_name (sorted_plugins ?P)))
              @ map CallUpdate (map p_name (sorted_plugins ?P))"
    unfolding m by blast
  with ok show ?thesis unfolding s by simp
qed

text \<open>
  Two plugins of one priority, discovered as A, B: ties broken by discovery order would
  prepare A before B, and the code prepares B before A.
\<close>

theorem prepare_ties_counterexample:
  "map p_name (discovered [(''x'', [idle_plugin ''A'' 5, idle_plugin ''B'' 5])]) = [''A'', ''B'']
   \<and> map p_name (descending_by_discovery
                   (discovered [(''x'', [idle_plugin ''A'' 5, idle_plugin ''B'' 5])]))
       = [''A'', ''B'']
   \<and> filter is_run (new_effects (initial_state ()) (snd (generation
          (sorted_plugins [(''x'', [idle_plugin ''A'' 5, idle_plugin ''B'' 5])])
          quiet_env (initial_state ()))))
       = [CallPrepare ''B'', CallPrepare ''A'', CallUpdate ''A'', CallUpdate ''B'']"
  by (simp add: run_defs descending_by_discovery_def)

text \<open>
  Claim C3. Each body of \<open>EmitHolder\<close> holds the lock of the condition, so the threads'
  calls happen one after the other in some order, the schedule. For every schedule, what the
  drains returned, one after the other, followed by what is left in the buffer, is what the
  buffer held at the start followed by the emitted events in the order of the emitting calls,
  a sequence keeping its own order: nothing is lost, doubled or reordered. And a call of
  \<open>get_events\<close> that returns gives back the whole buffer and leaves it empty.
\<close>

theorem event_bus_fifo:
  "concat (snd (run as h)) @ events (fst (run as h)) = events h @ emitted as
   \<and> (step a h = (h', Some evs) \<longrightarrow> evs = events h \<and> events h' = [])"
  using run_conserves [of as h] step_drain [of a h h' evs] by blast

text \<open>Two producers and two drains, the second one blocking.\<close>

theorem event_bus_fifo_witness:
  "step (GetEvents (- 1)) \<lparr>events = [Settings, Apply ''a''], consumer = Idle\<rparr>
     = (\<lparr>events = [], consumer = Idle\<rparr>, Some [Settings, Apply ''a''])
   \<and> snd (run [Emit (Inl Settings), Emit (Inr [Apply ''a'', Apply ''b'']), GetEvents (- 1),
              GetEvents 0, Emit (Inl (Other ''x'')), Emit (Inl Settings), Resume]
             \<lparr>events = [], consumer = Idle\<rparr>)
     = [[Settings, Apply ''a'', Apply ''b''], [Other ''x'', Settings]]
   \<and> concat (snd (run [Emit (Inl Settings), Emit (Inr [Apply ''a'', Apply ''b'']), GetEvents (- 1),
              GetEvents 0, Emit (Inl (Other ''x'')), Emit (Inl Settings), Resume]
             \<lparr>events = [], consumer = Idle\<rparr>))
      @ events (fst (run [Emit (Inl Settings), Emit (Inr [Apply ''a'', Apply ''b'']), GetEvents (- 1),
              GetEvents 0, Emit (Inl (Other ''x'')), Emit (Inl Settings), Resume]
             \<lparr>events = [], consumer = Idle\<rparr>))
     = [Settings, Apply ''a'', Apply ''b'', Other ''x'', Settings]"
proof -
  have s: "step (GetEvents (- 1)) \<lparr>events = [Settings, Apply ''a''], consumer = Idle\<rparr>
     = (\<lparr>events = [], consumer = Idle\<rparr>, Some [Settings, Apply ''a''])"
    by (simp add: get_events_def take_events_def)
  from event_bus_fifo
    [of "[Emit (Inl Settings), Emit (Inr [Apply ''a'', Apply ''b'']), GetEvents (- 1),
              GetEvents 0, Emit (Inl (Other ''x'')), Emit (Inl Settings), Resume]"
        "\<lparr>events = [], consumer = Idle\<rparr>" "GetEvents (- 1)"
        "\<lparr>events = [], consumer = Idle\<rparr>" "[Settings, Apply ''a'']"] s
  show ?thesis
    by (simp add: get_events_def take_events_def resume_def emit_call_def notify_all_def)
qed

text \<open>
  Claim C5, as the code has it. A blocking \<open>get_events\<close> on an empty buffer waits: it
  returns nothing while other threads only emit or notify. It waits once, for one
  notification of the condition, and then returns what the buffer holds at that moment,
  which is what was emitted meanwhile. That is empty when the notification came from a
  signal's notifier or from an emit of an empty sequence and nothing else was emitted.
\<close>

theorem blocking_get_events:
  assumes "events h = []" "consumer h = Idle" "timeout \<noteq> - 1" "list_all producer_step as"
  shows "snd (run (GetEvents timeout # as) h) = []
         \<and> (as = [] \<longrightarrow> snd (step Resume (fst (run (GetEvents timeout # as) h))) = None)
         \<and> (as \<noteq> [] \<longrightarrow>
              snd (step Resume (fst (run (GetEvents timeout # as) h))) = Some (emitted as))"
proof -
  let ?h = "h\<lparr>consumer := Waiting\<rparr>"
  from assms have g: "step (GetEvents timeout) h = (?h, None)" by (simp add: get_events_def)
  from all_producers_run [OF assms(4), of ?h] assms(1)
  have r: "snd (run as ?h) = []" "events (fst (run as ?h)) = emitted as"
    "consumer (fst (run as ?h)) = (if as \<noteq> [] then Woken else Waiting)" by simp_all
  have e: "run (GetEvents timeout # as) h = (fst (run as ?h), snd (run as ?h))"
    using g by (simp add: get_events_def split: prod.splits)
  show ?thesis unfolding e using r by (simp add: resume_def take_events_def)
qed

text \<open>The caller waits while two events are emitted, and gets both.\<close>

theorem blocking_get_events_witness:
  "events \<lparr>events = [], consumer = Idle\<rparr> = [] \<and> consumer \<lparr>events = [], consumer = Idle\<rparr> = Idle
   \<and> (5::int) \<noteq> - 1 \<and> list_all producer_step [Emit (Inl Settings), Signal, Emit (Inl (Apply ''a''))]
   \<and> snd (run [GetEvents 5, Emit (Inl Settings), Signal, Emit (Inl (Apply ''a''))]
             \<lparr>events = [], consumer = Idle\<rparr>) = []
   \<and> snd (step Resume (fst (run [GetEvents 5, Emit (Inl Settings), Signal, Emit (Inl (Apply ''a''))]
             \<lparr>events = [], consumer = Idle\<rparr>))) = Some [Settings, Apply ''a'']"
proof -
  have h: "events \<lparr>events = [], consumer = Idle\<rparr> = []"
    "consumer \<lparr>events = [], consumer = Idle\<rparr> = Idle" "(5::int) \<noteq> - 1"
    "list_all producer_step [Emit (Inl Settings), Signal, Emit (Inl (Apply ''a''))]"
    by simp_all
  from blocking_get_events [OF h] h show ?thesis by simp
qed

text \<open>
  A blocking \<open>get_events\<close> on an empty buffer returns the empty sequence: once when a signal
  handler notifies the condition, once when a producer emits an empty sequence.
\<close>

theorem blocking_get_events_counterexample:
  "run [GetEvents 0, Signal, Resume] \<lparr>events = [], consumer = Idle\<rparr>
     = (\<lparr>events = [], consumer = Idle\<rparr>, [[]])
   \<and> run [GetEvents 0, Emit (Inr []), Resume] \<lparr>events = [], consumer = Idle\<rparr>
     = (\<lparr>events = [], consumer = Idle\<rparr>, [[]])"
  by (simp add: get_events_def take_events_def resume_def emit_call_def notify_all_def)

text \<open>
  Claim C6. At reinitialization the new Settings are merged from the plugins' fragments and
  the daemon's own; when the state file does not load, the previous Config stays if it is
  not empty, and otherwise the defaults of the new Settings are taken; when it loads, the
  loaded Config replaces the previous one. This is what the Config is when reinitialization
  ends, whether or not a later step of it raises.
\<close>

theorem state_file_fallback:
  "settings (snd (reload plugs env st)) = new_settings plugs env
   \<and> (load_state_yaml env (state_fn env) (new_settings plugs env) = None \<and> conf st \<noteq> []
        \<longrightarrow> conf (snd (reload plugs env st)) = conf st)
   \<and> (load_state_yaml env (state_fn env) (new_settings plugs env) = None \<and> conf st = []
        \<longrightarrow> conf (snd (reload plugs env st)) = get_default_state env (new_settings plugs env))
   \<and> (load_state_yaml env (state_fn env) (new_settings plugs env) = Some c
        \<longrightarrow> conf (snd (reload plugs env st)) = c)
   \<and> (should_initialize st \<or> initial_run st
        \<longrightarrow> configure plugs env st = reload plugs env st)"
  by (simp add: reload_settings reload_conf configure_def)

text \<open>
  The three cases: no file and no Config yet, no file and a Config in memory, a file that
  loads.
\<close>

theorem state_file_fallback_witness:
  "load_state_yaml quiet_env (state_fn quiet_env) (new_settings [idle_plugin ''A'' 5] quiet_env) = None
   \<and> conf (initial_state ()) = []
   \<and> conf (snd (reload [idle_plugin ''A'' 5] quiet_env (initial_state ())))
       = [(''hhd'', Node [(''http'', Node [(''enable'', Leaf (VBool False))])])]
   \<and> conf ((initial_state ())\<lparr>conf := [(''k'', Leaf (VInt 1))]\<rparr>) \<noteq> []
   \<and> conf (snd (reload [idle_plugin ''A'' 5] quiet_env
                  ((initial_state ())\<lparr>conf := [(''k'', Leaf (VInt 1))]\<rparr>)))
       = [(''k'', Leaf (VInt 1))]
   \<and> load_state_yaml (quiet_env\<lparr>load_state_yaml := (\<lambda>fn s. Some [(''j'', Leaf (VInt 2))])\<rparr>)
        (state_fn (quiet_env\<lparr>load_state_yaml := (\<lambda>fn s. Some [(''j'', Leaf (VInt 2))])\<rparr>))
        (new_settings [idle_plugin ''A'' 5]
           (quiet_env\<lparr>load_state_yaml := (\<lambda>fn s. Some [(''j'', Leaf (VInt 2))])\<rparr>))
       = Some [(''j'', Leaf (VInt 2))]
   \<and> conf (snd (reload [idle_plugin ''A'' 5]
                  (quiet_env\<lparr>load_state_yaml := (\<lambda>fn s. Some [(''j'', Leaf (VInt 2))])\<rparr>)
                  ((initial_state ())\<lparr>conf := [(''k'', Leaf (VInt 1))]\<rparr>)))
       = [(''j'', Leaf (VInt 2))]
   \<and> initial_run (initial_state ())
   \<and> configure [idle_plugin ''A'' 5] quiet_env (initial_state ())
       = reload [idle_plugin ''A'' 5] quiet_env (initial_state ())"
proof -
  have h1: "load_state_yaml quiet_env (state_fn quiet_env) (new_settings [idle_plugin ''A'' 5] quiet_env) = None"
    by (simp add: quiet_env_def)
  have h2: "conf (initial_state ()) = []" "initial_run (initial_state ())"
    by (simp_all add: initial_state_def)
  have h3: "conf ((initial_state ())\<lparr>conf := [(''k'', Leaf (VInt 1))]\<rparr>) \<noteq> []" by simp
  have h4: "load_state_yaml (quiet_env\<lparr>load_state_yaml := (\<lambda>fn s. Some [(''j'', Leaf (VInt 2))])\<rparr>)
        (state_fn (quiet_env\<lparr>load_state_yaml := (\<lambda>fn s. Some [(''j'', Leaf (VInt 2))])\<rparr>))
        (new_settings [idle_plugin ''A'' 5]
           (quiet_env\<lparr>load_state_yaml := (\<lambda>fn s. Some [(''j'', Leaf (VInt 2))])\<rparr>))
       = Some [(''j'', Leaf (VInt 2))]" by simp
  have d: "get_default_state quiet_env (new_settings [idle_plugin ''A'' 5] quiet_env)
       = [(''hhd'', Node [(''http'', Node [(''enable'', Leaf (VBool False))])])]"
    by (simp add: quiet_env_def)
  from state_file_fallback [of "[idle_plugin ''A'' 5]" quiet_env "initial_state ()"]
    state_file_fallback [of "[idle_plugin ''A'' 5]" quiet_env
       "(initial_state ())\<lparr>conf := [(''k'', Leaf (VInt 1))]\<rparr>"]
    state_file_fallback [of "[idle_plugin ''A'' 5]"
       "quiet_env\<lparr>load_state_yaml := (\<lambda>fn s. Some [(''j'', Leaf (VInt 2))])\<rparr>"
       "(initial_state ())\<lparr>conf := [(''k'', Leaf (VInt 1))]\<rparr>" "[(''j'', Leaf (VInt 2))]"]
    h1 h2 h3 h4 d
  show ?thesis by simp
qed

section \<open>Shutdown\<close>

lemma finally_block_snd:
  "snd (finally_block plugins env r)
     = snd (seq (close_http env (snd r)) (for_each close_plugin (discovered plugins)))"
  by (simp add: finally_block_def split: prod.splits option.splits)

lemma finally_block_fst:
  "fst (finally_block plugins env r)
     = (case fst (seq (close_http env (snd r)) (for_each close_plugin (discovered plugins))) of
          None \<Rightarrow> fst r | Some e \<Rightarrow> Some e)"
  by (simp add: finally_block_def split: prod.splits option.splits)

lemma close_plugin_ok: "fst (p_close p (world st)) = None \<Longrightarrow> fst (close_plugin p st) = None"
  by (cases "p_close p (world st)") (simp add: close_plugin_def)

lemma finally_block_closes:
  assumes nc: "filter is_close (trace (snd r)) = []"
  shows "\<exists>k. k \<le> length (discovered plugins)
     \<and> filter is_close (trace (snd (finally_block plugins env r)))
         = map (\<lambda>p. CallClose (p_name p)) (take k (discovered plugins))
     \<and> (k < length (discovered plugins) \<longrightarrow> fst (finally_block plugins env r) \<noteq> None)
     \<and> (https_close env = None \<and> (\<forall>p\<in>set (discovered plugins). \<forall>w'. fst (p_close p w') = None)
          \<longrightarrow> k = length (discovered plugins))
     \<and> (\<forall>n. CallOpen n \<in> set (trace (snd (finally_block plugins env r)))
          \<longrightarrow> CallOpen n \<in> set (trace (snd r)))"
proof -
  let ?D = "discovered plugins"
  let ?c = "\<lambda>p. CallClose (p_name p)"
  let ?r1 = "close_http env (snd r)"
  from close_http_trace [of env "snd r"] obtain es where
    es: "trace (snd ?r1) = trace (snd r) @ es" "filter is_close es = []"
      "list_all (\<lambda>e. \<forall>n. e \<noteq> CallOpen n) es" by blast
  have no: "CallOpen n \<notin> set es" for n using es(3) by (auto simp: list_all_iff)
  have fc: "filter is_close (map ?c xs) = map ?c xs" for xs :: "'a plugin list"
    by (induction xs) simp_all
  have oc: "CallOpen n \<notin> set (map ?c xs)" for n and xs :: "'a plugin list"
    by (induction xs) simp_all
  show ?thesis
  proof (cases "fst ?r1")
    case (Some e)
    then have s: "seq ?r1 (for_each close_plugin ?D) = ?r1" by (rule seq_fail)
    have h: "https_close env \<noteq> None" using Some close_http_ok [of env "snd r"] by auto
    show ?thesis
      by (rule exI [of _ 0])
         (use Some h no in \<open>auto simp: finally_block_snd finally_block_fst s es nc\<close>)
  next
    case None
    let ?r2 = "for_each close_plugin ?D (snd ?r1)"
    from None have s: "seq ?r1 (for_each close_plugin ?D) = ?r2" by (rule seq_pass)
    from for_each_calls [of close_plugin ?c ?D "snd ?r1", OF close_plugin_trace]
    obtain k where k: "k \<le> length ?D \<and> trace (snd ?r2) = trace (snd ?r1) @ map ?c (take k ?D)
            \<and> (fst ?r2 = None \<longrightarrow> k = length ?D)
            \<and> (k < length ?D \<longrightarrow> fst ?r2 \<noteq> None)
            \<and> (?D \<noteq> [] \<longrightarrow> 0 < k)" ..
    have all: "k = length ?D" if "\<forall>p\<in>set ?D. \<forall>w'. fst (p_close p w') = None"
    proof -
      have "fst ?r2 = None"
        by (rule for_each_ok) (use that in \<open>simp add: close_plugin_ok\<close>)
      with k show ?thesis by simp
    qed
    have t: "trace (snd (finally_block plugins env r))
               = trace (snd r) @ es @ map ?c (take k ?D)"
      using k by (simp add: finally_block_snd s es(1))
    show ?thesis
    proof (rule exI [of _ k], intro conjI)
      show "k \<le> length ?D" using k by simp
      show "filter is_close (trace (snd (finally_block plugins env r))) = map ?c (take k ?D)"
        by (simp add: t nc es(2) fc)
      show "k < length ?D \<longrightarrow> fst (finally_block plugins env r) \<noteq> None"
        using k by (auto simp: finally_block_fst s split: option.splits)
      show "https_close env = None \<and> (\<forall>p\<in>set ?D. \<forall>w'. fst (p_close p w') = None)
          \<longrightarrow> k = length ?D" using all by simp
      show "\<forall>n. CallOpen n \<in> set (trace (snd (finally_block plugins env r)))
          \<longrightarrow> CallOpen n \<in> set (trace (snd r))"
        using no oc by (auto simp: t)
    qed
  qed
qed

text \<open>
  What shutdown does in every case: however the loop ended, the calls of \<open>close\<close> are
  those of the first \<open>k\<close> discovered plugins, in discovery order; all of them, and with
  them every plugin that was opened, when no \<open>close\<close> raises.
\<close>

lemma shutdown_closes:
  assumes "main plugins envs env w = Some (exn, st)"
  shows "\<exists>k. k \<le> length (discovered plugins)
     \<and> filter is_close (trace st) = map (\<lambda>p. CallClose (p_name p)) (take k (discovered plugins))
     \<and> (k < length (discovered plugins) \<longrightarrow> exn \<noteq> None)
     \<and> (https_close env = None \<and> (\<forall>p\<in>set (discovered plugins). \<forall>w'. fst (p_close p w') = None)
          \<longrightarrow> k = length (discovered plugins))
     \<and> (k = length (discovered plugins)
          \<longrightarrow> (\<forall>n. CallOpen n \<in> set (trace st) \<longrightarrow> CallClose n \<in> set (trace st)))"
proof -
  let ?D = "discovered plugins"
  let ?c = "\<lambda>p. CallClose (p_name p)"
  from assms obtain r where r: "try_block plugins envs (initial_state w) = Some r"
    and f: "finally_block plugins env r = (exn, st)"
    by (auto simp: main_def)
  from extendsD [OF try_block_extends [OF r]]
  have ok: "list_all (opened_ok (map p_name ?D)) (trace (snd r))"
    by (simp add: initial_state_def)
  then have nc: "filter is_close (trace (snd r)) = []"
    by (auto simp: list_all_iff opened_ok_def filter_empty_conv)
  from ok have op: "CallOpen n \<in> set (trace (snd r)) \<Longrightarrow> n \<in> p_name ` set ?D" for n
    by (auto simp: list_all_iff opened_ok_def)
  from finally_block_closes [OF nc, of plugins env] f
  obtain k where k: "k \<le> length ?D"
     "filter is_close (trace st) = map ?c (take k ?D)"
     "k < length ?D \<longrightarrow> exn \<noteq> None"
     "https_close env = None \<and> (\<forall>p\<in>set ?D. \<forall>w'. fst (p_close p w') = None) \<longrightarrow> k = length ?D"
     "\<forall>n. CallOpen n \<in> set (trace st) \<longrightarrow> CallOpen n \<in> set (trace (snd r))"
    by auto
  have cl: "CallClose n \<in> set (trace st)" if "k = length ?D" "CallOpen n \<in> set (trace st)" for n
  proof -
    from that(2) k(5) op have "n \<in> p_name ` set ?D" by blast
    then have "CallClose n \<in> set (map ?c (take k ?D))" using that(1) by auto
    with k(2) have "CallClose n \<in> set (filter is_close (trace st))" by simp
    then show ?thesis by simp
  qed
  show ?thesis
    by (rule exI [of _ k]) (use k cl in blast)
qed

lemma seq_assoc: "seq (seq r f) g = seq r (\<lambda>s. seq (f s) g)"
proof (cases r)
  case (Pair exn s)
  then show ?thesis by (cases exn) simp_all
qed

lemma for_each_append:
  "for_each body (xs @ ys) st = seq (for_each body xs st) (for_each body ys)"
proof (induction xs arbitrary: st)
  case Nil
  show ?case by (simp add: ok_def)
next
  case (Cons x xs)
  have "for_each body (xs @ ys) = (\<lambda>s. seq (for_each body xs s) (for_each body ys))"
    by (rule ext) (rule Cons.IH)
  then show ?case by (simp add: seq_assoc)
qed

lemma close_plugin_fst: "fst (close_plugin p st) = fst (p_close p (world st))"
  by (cases "p_close p (world st)") (simp add: close_plugin_def)

lemma for_each_close_stops:
  assumes "\<forall>q\<in>set ps. \<forall>w'. fst (p_close q w') = None" "\<forall>w'. fst (p_close p w') = Some e"
  shows "fst (for_each close_plugin (ps @ p # qs) st) = Some e
         \<and> trace (snd (for_each close_plugin (ps @ p # qs) st))
             = trace st @ map (\<lambda>q. CallClose (p_name q)) (ps @ [p])"
proof -
  let ?c = "\<lambda>q. CallClose (p_name q)"
  let ?r1 = "for_each close_plugin ps st"
  have ok1: "fst ?r1 = None"
    by (rule for_each_ok) (use assms(1) in \<open>simp add: close_plugin_fst\<close>)
  from for_each_calls [of close_plugin ?c ps st, OF close_plugin_trace]
  obtain k where "k \<le> length ps \<and> trace (snd ?r1) = trace st @ map ?c (take k ps)
            \<and> (fst ?r1 = None \<longrightarrow> k = length ps)
            \<and> (k < length ps \<longrightarrow> fst ?r1 \<noteq> None)
            \<and> (ps \<noteq> [] \<longrightarrow> 0 < k)" ..
  with ok1 have t1: "trace (snd ?r1) = trace st @ map ?c ps" by simp
  let ?r2 = "close_plugin p (snd ?r1)"
  from assms(2) have f2: "fst ?r2 = Some e" by (simp add: close_plugin_fst)
  have "for_each close_plugin (ps @ p # qs) st = for_each close_plugin (p # qs) (snd ?r1)"
    by (simp only: for_each_append seq_pass [OF ok1])
  also have "\<dots> = ?r2" by (simp add: seq_fail [OF f2])
  finally have e: "for_each close_plugin (ps @ p # qs) st = ?r2" .
  show ?thesis unfolding e using f2 by (simp add: close_plugin_trace t1)
qed

text \<open>
  Claim C4. The claim asks that a failure of one plugin's \<open>close\<close> be swallowed and the
  remaining plugins be closed all the same. The \<open>finally\<close> block of \<open>main\<close> guards
  \<open>os.close(fd)\<close> that way and calls \<open>p.close()\<close> with no handler. So when \<open>main\<close> ends, the
  plugins before \<open>p\<close> in discovery order close without raising and \<open>close\<close> of \<open>p\<close> raises
  \<open>e\<close>, then \<open>main\<close> ends with \<open>e\<close>, and the calls of \<open>close\<close> are those of the plugins up
  to \<open>p\<close>: no plugin after \<open>p\<close> is closed, opened or not.
\<close>

theorem close_failure_propagates:
  assumes "main plugins envs env w = Some (exn, st)"
    and "discovered plugins = ps @ p # qs"
    and "\<forall>q\<in>set ps. \<forall>w'. fst (p_close q w') = None"
    and "\<forall>w'. fst (p_close p w') = Some e"
    and "https_close env = None"
  shows "exn = Some e
         \<and> filter is_close (trace st) = map (\<lambda>q. CallClose (p_name q)) (ps @ [p])"
proof -
  let ?c = "\<lambda>q. CallClose (p_name q)"
  from assms(1) obtain r where r: "try_block plugins envs (initial_state w) = Some r"
    and f: "finally_block plugins env r = (exn, st)"
    by (auto simp: main_def)
  from extendsD [OF try_block_extends [OF r]]
  have "list_all (opened_ok (map p_name (discovered plugins))) (trace (snd r))"
    by (simp add: initial_state_def)
  then have nc: "filter is_close (trace (snd r)) = []"
    by (auto simp: list_all_iff opened_ok_def filter_empty_conv)
  let ?r1 = "close_http env (snd r)"
  from close_http_trace [of env "snd r"] obtain es where
    es: "trace (snd ?r1) = trace (snd r) @ es" "filter is_close es = []" by blast
  from assms(5) have ok1: "fst ?r1 = None" by (rule close_http_ok)
  have s: "seq ?r1 (for_each close_plugin (discovered plugins))
             = for_each close_plugin (ps @ p # qs) (snd ?r1)"
    by (simp add: seq_pass [OF ok1] assms(2))
  from for_each_close_stops [OF assms(3,4), of qs "snd ?r1"]
  have c: "fst (for_each close_plugin (ps @ p # qs) (snd ?r1)) = Some e"
    "trace (snd (for_each close_plugin (ps @ p # qs) (snd ?r1)))
       = trace (snd ?r1) @ map ?c (ps @ [p])" by simp_all
  have fc: "filter is_close (map ?c xs) = map ?c xs" for xs :: "'a plugin list"
    by (induction xs) simp_all
  from f have "exn = fst (finally_block plugins env r)" "st = snd (finally_block plugins env r)"
    by simp_all
  then have "exn = Some e" "trace st = trace (snd r) @ es @ map ?c (ps @ [p])"
    by (simp_all add: finally_block_fst finally_block_snd s c es(1))
  then show ?thesis using nc es(2) fc [of "ps @ [p]"] by simp
qed

text \<open>
  The failing input: plugins A and B, where \<open>close\<close> of A raises. One generation runs, a
  termination signal ends the loop, both plugins were opened; the failure of A leaves
  \<open>main\<close>, and B is not closed.
\<close>

theorem close_failure_propagates_witness:
  "main [(''x'', [(idle_plugin ''A'' 5)\<lparr>p_close := (\<lambda>w. (Some (PluginFailure ''A''), w))\<rparr>,
                  idle_plugin ''B'' 7])]
      [quiet_env\<lparr>terminate := True\<rparr>] quiet_env ()
     = Some (Some (PluginFailure ''A''),
             snd (the (main [(''x'', [(idle_plugin ''A'' 5)
                                        \<lparr>p_close := (\<lambda>w. (Some (PluginFailure ''A''), w))\<rparr>,
                                      idle_plugin ''B'' 7])]
                         [quiet_env\<lparr>terminate := True\<rparr>] quiet_env ())))
   \<and> filter is_plugin_call
        (trace (snd (the (main [(''x'', [(idle_plugin ''A'' 5)
                                          \<lparr>p_close := (\<lambda>w. (Some (PluginFailure ''A''), w))\<rparr>,
                                        idle_plugin ''B'' 7])]
                           [quiet_env\<lparr>terminate := True\<rparr>] quiet_env ()))))
     = [CallOpen ''A'', CallOpen ''B'', CallPrepare ''B'', CallPrepare ''A'',
        CallUpdate ''A'', CallUpdate ''B'', CallClose ''A'']"
proof -
  let ?A = "(idle_plugin ''A'' 5)\<lparr>p_close := (\<lambda>w. (Some (PluginFailure ''A''), w))\<rparr>"
  let ?P = "[(''x'', [?A, idle_plugin ''B'' 7])]"
  let ?m = "main ?P [quiet_env\<lparr>terminate := True\<rparr>] quiet_env ()"
  have m: "?m = Some (fst (the ?m), snd (the ?m))"
    by (simp add: run_defs)
  have d: "discovered ?P = [] @ ?A # [idle_plugin ''B'' 7]"
    by (simp add: discovered_def)
  have h: "\<forall>q\<in>set ([] :: unit plugin list). \<forall>w'. fst (p_close q w') = None"
    "\<forall>w'. fst (p_close ?A w') = Some (PluginFailure ''A'')"
    "https_close quiet_env = None"
    by (simp_all add: quiet_env_def)
  from close_failure_propagates [OF m d h] m
  show ?thesis by (simp add: run_defs)
qed

section \<open>Profiles and templates\<close>






text \<open>
  Names bound to one object change together: a producer sends one Config object under the
  names \<open>x\<close> and \<open>y\<close>, a later event for \<open>x\<close> merges into it, and applying \<open>y\<close> then
  brings what was merged for \<open>x\<close>.
\<close>

lemma profiles_share_object:
  "profiles (snd (for_each (apply_event quiet_env)
       [Profile ''x'' (Sent 0), Profile ''y'' (Sent 0), Profile ''x'' (Sent 1), Apply ''y'']
       ((initial_state ())
          \<lparr>objects := (\<lambda>r. [])(Sent 0 := [(''a'', Leaf (VInt 1))],
                                Sent 1 := [(''b'', Leaf (VInt 2))])\<rparr>)))
     = [(''x'', Sent 0), (''y'', Sent 0)]
   \<and> conf (snd (for_each (apply_event quiet_env)
       [Profile ''x'' (Sent 0), Profile ''y'' (Sent 0), Profile ''x'' (Sent 1), Apply ''y'']
       ((initial_state ())
          \<lparr>objects := (\<lambda>r. [])(Sent 0 := [(''a'', Leaf (VInt 1))],
                                Sent 1 := [(''b'', Leaf (VInt 2))])\<rparr>)))
     = [(''a'', Leaf (VInt 1)), (''b'', Leaf (VInt 2))]"
  by (simp add: run_defs)

text \<open>
  Claim C8, as the code has it. A profile file with a name that begins with \<open>_\<close> and that
  loads becomes a template when reinitialization succeeds: its name is in the templates and
  not in the profiles map, so an \<open>Apply\<close> event with that name right after changes
  nothing. The save phase, in any state, saves every profile of the profiles map and then
  one template file, \<open>_template.yml\<close>, with the template named \<open>_template\<close> or with nothing
  when there is none: a template under another name is not written.
\<close>

theorem templates_kept_apart:
  assumes "fst (reload plugs env st) = None"
    "fn \<in> set (listdir env (profile_dir env))" "endswith fn ''.yml''" "startswith fn ''_''"
    "load_profile_yaml env (join (profile_dir env) fn) = Some c"
  shows "map_of (templates (snd (reload plugs env st))) (remove_all ''.yml'' fn) \<noteq> None
         \<and> map_of (profiles (snd (reload plugs env st))) (remove_all ''.yml'' fn) = None
         \<and> apply_event env' (Apply (remove_all ''.yml'' fn)) (snd (reload plugs env st))
             = (None, snd (reload plugs env st))
         \<and> filter is_save_profile (new_effects s (save_phase env' s))
             = map (\<lambda>np. SaveProfile (profile_fn env' (fst np)) (settings s)
                           (Some (objects s (snd np))))
                 (profiles s)
               @ [SaveProfile (join (profile_dir env') ''_template.yml'') (settings s)
                    (map_option (objects s) (map_of (templates s) ''_template''))]"
proof -
  from assms(4) have n: "startswith (remove_all ''.yml'' fn) ''_''"
    by (rule startswith_remove_all)
  from reload_template [OF assms(1,2,3,5) n]
  have 1: "map_of (templates (snd (reload plugs env st))) (remove_all ''.yml'' fn) \<noteq> None" .
  from reload_profiles_keys [OF n]
  have 2: "map_of (profiles (snd (reload plugs env st))) (remove_all ''.yml'' fn) = None" .
  from 2 have 3: "apply_event env' (Apply (remove_all ''.yml'' fn)) (snd (reload plugs env st))
             = (None, snd (reload plugs env st))" by (simp add: ok_def)
  have "new_effects s (save_phase env' s)
          = save_effects env' s
              @ (if \<not> should_initialize s \<and> saved env' s then [Sleep MODIFY_DELAY] else [])"
    by (rule new_effects_append) (rule save_phase_trace)
  then have 4: "filter is_save_profile (new_effects s (save_phase env' s))
             = map (\<lambda>np. SaveProfile (profile_fn env' (fst np)) (settings s)
                           (Some (objects s (snd np))))
                 (profiles s)
               @ [SaveProfile (join (profile_dir env') ''_template.yml'') (settings s)
                    (map_option (objects s) (map_of (templates s) ''_template''))]"
    by (simp add: save_effects_filter)
  from 1 2 3 4 show ?thesis by simp
qed

text \<open>The profile directory holds \<open>_template.yml\<close> and \<open>racer.yml\<close>.\<close>

theorem templates_kept_apart_witness:
  "fst (reload [idle_plugin ''A'' 5]
          (quiet_env\<lparr>listdir := (\<lambda>d. [''_template.yml'', ''racer.yml'']),
                     load_profile_yaml := (\<lambda>fn. Some [(''k'', Leaf (VInt 1))])\<rparr>)
          (initial_state ())) = None
   \<and> templates (snd (reload [idle_plugin ''A'' 5]
          (quiet_env\<lparr>listdir := (\<lambda>d. [''_template.yml'', ''racer.yml'']),
                     load_profile_yaml := (\<lambda>fn. Some [(''k'', Leaf (VInt 1))])\<rparr>)
          (initial_state ()))) = [(''_template'', Made 0)]
   \<and> profiles (snd (reload [idle_plugin ''A'' 5]
          (quiet_env\<lparr>listdir := (\<lambda>d. [''_template.yml'', ''racer.yml'']),
                     load_profile_yaml := (\<lambda>fn. Some [(''k'', Leaf (VInt 1))])\<rparr>)
          (initial_state ()))) = [(''racer'', Made 1)]
   \<and> filter is_save_profile
       (new_effects
          (snd (reload [idle_plugin ''A'' 5]
             (quiet_env\<lparr>listdir := (\<lambda>d. [''_template.yml'', ''racer.yml'']),
                        load_profile_yaml := (\<lambda>fn. Some [(''k'', Leaf (VInt 1))])\<rparr>)
             (initial_state ())))
          (save_phase quiet_env
             (snd (reload [idle_plugin ''A'' 5]
                (quiet_env\<lparr>listdir := (\<lambda>d. [''_template.yml'', ''racer.yml'']),
                           load_profile_yaml := (\<lambda>fn. Some [(''k'', Leaf (VInt 1))])\<rparr>)
                (initial_state ())))))
     = [SaveProfile ''~/.config/hhd/profiles/racer.yml'' [(''hhd'', Node [])]
          (Some [(''k'', Leaf (VInt 1))]),
        SaveProfile ''~/.config/hhd/profiles/_template.yml'' [(''hhd'', Node [])]
          (Some [(''k'', Leaf (VInt 1))])]"
proof -
  let ?env = "quiet_env\<lparr>listdir := (\<lambda>d. [''_template.yml'', ''racer.yml'']),
                     load_profile_yaml := (\<lambda>fn. Some [(''k'', Leaf (VInt 1))])\<rparr>"
  let ?r = "reload [idle_plugin ''A'' 5] ?env (initial_state ())"
  have h: "fst ?r = None" "''_template.yml'' \<in> set (listdir ?env (profile_dir ?env))"
    "endswith ''_template.yml'' ''.yml''" "startswith ''_template.yml'' ''_''"
    "load_profile_yaml ?env (join (profile_dir ?env) ''_template.yml'') = Some [(''k'', Leaf (VInt 1))]"
    by (simp_all add: run_defs)
  have v: "templates (snd ?r) = [(''_template'', Made 0)]"
    "profiles (snd ?r) = [(''racer'', Made 1)]"
    "settings (snd ?r) = [(''hhd'', Node [])]"
    "objects (snd ?r) (Made 0) = [(''k'', Leaf (VInt 1))]"
    "objects (snd ?r) (Made 1) = [(''k'', Leaf (VInt 1))]"
    by (simp_all add: run_defs)
  from templates_kept_apart [OF h, of quiet_env "snd ?r"] h(1)
  show ?thesis unfolding v by (simp add: run_defs)
qed

text \<open>
  The profile directory holds \<open>_foo.yml\<close>. It is loaded as the template \<open>_foo\<close>, and the
  generation's save phase writes the state and an empty \<open>_template.yml\<close> only.
\<close>

theorem template_not_saved_counterexample:
  "fst (generation [idle_plugin ''A'' 5]
          (quiet_env\<lparr>listdir := (\<lambda>d. [''_foo.yml'']),
                     load_profile_yaml := (\<lambda>fn. Some [(''k'', Leaf (VInt 1))])\<rparr>)
          (initial_state ())) = None
   \<and> templates (snd (generation [idle_plugin ''A'' 5]
          (quiet_env\<lparr>listdir := (\<lambda>d. [''_foo.yml'']),
                     load_profile_yaml := (\<lambda>fn. Some [(''k'', Leaf (VInt 1))])\<rparr>)
          (initial_state ()))) = [(''_foo'', Made 0)]
   \<and> objects (snd (generation [idle_plugin ''A'' 5]
          (quiet_env\<lparr>listdir := (\<lambda>d. [''_foo.yml'']),
                     load_profile_yaml := (\<lambda>fn. Some [(''k'', Leaf (VInt 1))])\<rparr>)
          (initial_state ()))) (Made 0) = [(''k'', Leaf (VInt 1))]
   \<and> filter is_save_profile (trace (snd (generation [idle_plugin ''A'' 5]
          (quiet_env\<lparr>listdir := (\<lambda>d. [''_foo.yml'']),
                     load_profile_yaml := (\<lambda>fn. Some [(''k'', Leaf (VInt 1))])\<rparr>)
          (initial_state ()))))
     = [SaveProfile ''~/.config/hhd/profiles/_template.yml'' [(''hhd'', Node [])] None]"
  by (simp add: run_defs)

lemma save_profiles_wrote:
  "snd (save_profiles env s objs ps)
     = list_ex (\<lambda>np. save_profile_yaml env (profile_fn env (fst np)) s (Some (objs (snd np)))) ps"
  by (induction ps) (auto simp: write_profile_def)

lemma saved_unfold:
  "saved env st
     = (save_state_yaml env (state_fn env) (settings st) (conf st)
        \<or> list_ex (\<lambda>np. save_profile_yaml env (profile_fn env (fst np)) (settings st)
                          (Some (objects st (snd np)))) (profiles st)
        \<or> save_profile_yaml env (join (profile_dir env) ''_template.yml'') (settings st)
             (map_option (objects st) (map_of (templates st) ''_template'')))"
  by (simp add: saved_def save_state_def save_template_def write_profile_def save_profiles_wrote)

text \<open>
  Claim C9. \<open>has_new\<close> is the flag as the save phase finds it, and a file was written when
  \<open>save_state_yaml\<close>, \<open>save_profile_yaml\<close> of some profile, or \<open>save_profile_yaml\<close> of the
  template returned true. After the save phase the flag is set when \<open>has_new\<close> was; it is
  cleared, after the short sleep, when \<open>has_new\<close> was not and a file was written, whatever a
  signal handler did meanwhile; and when no file was written the flag is not cleared: it is
  what a handler made of it. The sleep and the clearing happen in that second case only. A
  generation that drained a \<open>Settings\<close> event and completes ends with the flag set.
\<close>

theorem self_trigger_suppression:
  "should_initialize (save_phase env st)
     = (if should_initialize st then True
        else if save_state_yaml env (state_fn env) (settings st) (conf st)
                \<or> list_ex (\<lambda>np. save_profile_yaml env (profile_fn env (fst np)) (settings st)
                                  (Some (objects st (snd np)))) (profiles st)
                \<or> save_profile_yaml env (join (profile_dir env) ''_template.yml'') (settings st)
                     (map_option (objects st) (map_of (templates st) ''_template''))
        then False
        else poll_while_saving env)
   \<and> (Sleep MODIFY_DELAY \<in> set (new_effects st (save_phase env st))
        \<longleftrightarrow> \<not> should_initialize st
            \<and> (save_state_yaml env (state_fn env) (settings st) (conf st)
                \<or> list_ex (\<lambda>np. save_profile_yaml env (profile_fn env (fst np)) (settings st)
                                  (Some (objects st (snd np)))) (profiles st)
                \<or> save_profile_yaml env (join (profile_dir env) ''_template.yml'') (settings st)
                     (map_option (objects st) (map_of (templates st) ''_template''))))
   \<and> (Settings \<in> set (drained env st0) \<and> fst (generation plugs env st0) = None
        \<longrightarrow> should_initialize (snd (generation plugs env st0)))"
proof -
  have n: "new_effects st (save_phase env st)
          = save_effects env st
              @ (if \<not> should_initialize st \<and> saved env st then [Sleep MODIFY_DELAY] else [])"
    by (rule new_effects_append) (rule save_phase_trace)
  have "Sleep MODIFY_DELAY \<notin> set (save_effects env st)"
    using save_effects_quiet [of env st] by (auto simp: list_all_iff)
  then have 2: "Sleep MODIFY_DELAY \<in> set (new_effects st (save_phase env st))
        \<longleftrightarrow> \<not> should_initialize st \<and> saved env st"
    unfolding n by simp
  have 3: "should_initialize (snd (generation plugs env st0))"
    if "Settings \<in> set (drained env st0)" "fst (generation plugs env st0) = None"
    using generation_settings(2) [OF that]
    by (simp add: after_plugins_flag save_phase_flag)
  have 1: "should_initialize (save_phase env st)
     = (if should_initialize st then True else if saved env st then False
        else poll_while_saving env)" by (rule save_phase_flag)
  from 1 2 3 show ?thesis unfolding saved_unfold by blast
qed

text \<open>
  A directory-change signal arrives during the save phase. When the state file is written
  the flag is cleared; when a profile is written it is cleared; when nothing is written it
  stays set; and with a \<open>Settings\<close> event in the batch it stays set although a file is written.
\<close>

theorem self_trigger_suppression_witness:
  "\<not> should_initialize (initial_state ())
   \<and> save_state_yaml (quiet_env\<lparr>save_state_yaml := (\<lambda>fn s c. True), poll_while_saving := True\<rparr>)
       (state_fn (quiet_env\<lparr>save_state_yaml := (\<lambda>fn s c. True), poll_while_saving := True\<rparr>))
       (settings (initial_state ())) (conf (initial_state ()))
   \<and> \<not> should_initialize
        (save_phase (quiet_env\<lparr>save_state_yaml := (\<lambda>fn s c. True), poll_while_saving := True\<rparr>)
           (initial_state ()))
   \<and> Sleep MODIFY_DELAY \<in> set (new_effects (initial_state ())
        (save_phase (quiet_env\<lparr>save_state_yaml := (\<lambda>fn s c. True), poll_while_saving := True\<rparr>)
           (initial_state ())))
   \<and> \<not> should_initialize
        (save_phase (quiet_env\<lparr>save_profile_yaml := (\<lambda>fn s c. c \<noteq> None), poll_while_saving := True\<rparr>)
           ((initial_state ())\<lparr>profiles := [(''racer'', Made 0)]\<rparr>))
   \<and> should_initialize
        (save_phase (quiet_env\<lparr>poll_while_saving := True\<rparr>) (initial_state ()))
   \<and> Sleep MODIFY_DELAY \<notin> set (new_effects (initial_state ())
        (save_phase (quiet_env\<lparr>poll_while_saving := True\<rparr>) (initial_state ())))
   \<and> Settings \<in> set (drained
        (quiet_env\<lparr>save_state_yaml := (\<lambda>fn s c. True), poll_while_saving := True,
                   arrived := [Settings]\<rparr>) (initial_state ()))
   \<and> fst (generation [idle_plugin ''A'' 5]
        (quiet_env\<lparr>save_state_yaml := (\<lambda>fn s c. True), poll_while_saving := True,
                   arrived := [Settings]\<rparr>) (initial_state ())) = None
   \<and> should_initialize (snd (generation [idle_plugin ''A'' 5]
        (quiet_env\<lparr>save_state_yaml := (\<lambda>fn s c. True), poll_while_saving := True,
                   arrived := [Settings]\<rparr>) (initial_state ())))"
proof -
  let ?wrote = "quiet_env\<lparr>save_state_yaml := (\<lambda>fn s c. True), poll_while_saving := True\<rparr>"
  let ?prof = "quiet_env\<lparr>save_profile_yaml := (\<lambda>fn s c. c \<noteq> None), poll_while_saving := True\<rparr>"
  let ?quiet = "quiet_env\<lparr>poll_while_saving := True\<rparr>"
  let ?sett = "quiet_env\<lparr>save_state_yaml := (\<lambda>fn s c. True), poll_while_saving := True,
                   arrived := [Settings]\<rparr>"
  let ?sp = "(initial_state ())\<lparr>profiles := [(''racer'', Made 0)]\<rparr>"
  have h: "\<not> should_initialize (initial_state ())" "\<not> should_initialize ?sp"
    "save_state_yaml ?wrote (state_fn ?wrote) (settings (initial_state ())) (conf (initial_state ()))"
    "poll_while_saving ?quiet"
    by (simp_all add: initial_state_def quiet_env_def)
  have hp: "list_ex (\<lambda>np. save_profile_yaml ?prof (profile_fn ?prof (fst np)) (settings ?sp)
                                  (Some (objects ?sp (snd np)))) (profiles ?sp)"
    by (simp add: quiet_env_def)
  have h0: "\<not> (save_state_yaml ?quiet (state_fn ?quiet) (settings (initial_state ())) (conf (initial_state ()))
                \<or> list_ex (\<lambda>np. save_profile_yaml ?quiet (profile_fn ?quiet (fst np)) (settings (initial_state ()))
                                  (Some (objects (initial_state ()) (snd np)))) (profiles (initial_state ()))
                \<or> save_profile_yaml ?quiet (join (profile_dir ?quiet) ''_template.yml'') (settings (initial_state ()))
                     (map_option (objects (initial_state ())) (map_of (templates (initial_state ())) ''_template'')))"
    by (simp add: initial_state_def quiet_env_def)
  have h2: "Settings \<in> set (drained ?sett (initial_state ()))"
    "fst (generation [idle_plugin ''A'' 5] ?sett (initial_state ())) = None"
    by (simp_all add: run_defs)
  from self_trigger_suppression [of ?wrote "initial_state ()" "initial_state ()" "[idle_plugin ''A'' 5]"]
    h(1,3)
  have a: "\<not> should_initialize (save_phase ?wrote (initial_state ()))"
    "Sleep MODIFY_DELAY \<in> set (new_effects (initial_state ()) (save_phase ?wrote (initial_state ())))"
    by simp_all
  from self_trigger_suppression [of ?prof ?sp "initial_state ()" "[idle_plugin ''A'' 5]"] h(2) hp
  have b: "\<not> should_initialize (save_phase ?prof ?sp)" by simp
  from self_trigger_suppression [of ?quiet "initial_state ()" "initial_state ()" "[idle_plugin ''A'' 5]"]
    h(1,4) h0
  have c: "should_initialize (save_phase ?quiet (initial_state ()))"
    "Sleep MODIFY_DELAY \<notin> set (new_effects (initial_state ()) (save_phase ?quiet (initial_state ())))"
    by simp_all
  from self_trigger_suppression [of ?sett "initial_state ()" "initial_state ()" "[idle_plugin ''A'' 5]"]
    h2
  have d: "should_initialize (snd (generation [idle_plugin ''A'' 5] ?sett (initial_state ())))"
    by simp
  from a b c d h h2 show ?thesis by simp
qed

text \<open>
  Claim C10. An \<open>Apply\<close> event with a name that the profiles map lacks does nothing: it
  raises nothing and leaves the live Config, and every other variable, as it was, and the
  loop goes on with the next event.
\<close>

theorem apply_unknown_profile:
  assumes "map_of (profiles st) name = None"
  shows "apply_event env (Apply name) st = (None, st)
         \<and> conf (snd (apply_event env (Apply name) st)) = conf st
         \<and> for_each (apply_event env) (Apply name # evs) st = for_each (apply_event env) evs st"
  using assms by (simp add: ok_def)

text \<open>No profile is known, and \<open>racer\<close> is applied before a \<open>State\<close> event.\<close>

theorem apply_unknown_profile_witness:
  "map_of (profiles ((initial_state ())
             \<lparr>objects := (\<lambda>r. [])(Sent 0 := [(''k'', Leaf (VInt 1))])\<rparr>)) ''racer'' = None
   \<and> apply_event quiet_env (Apply ''racer'')
        ((initial_state ())\<lparr>objects := (\<lambda>r. [])(Sent 0 := [(''k'', Leaf (VInt 1))])\<rparr>)
     = (None, (initial_state ())\<lparr>objects := (\<lambda>r. [])(Sent 0 := [(''k'', Leaf (VInt 1))])\<rparr>)
   \<and> conf (snd (for_each (apply_event quiet_env)
                  [Apply ''racer'', State (Sent 0)]
                  ((initial_state ())\<lparr>objects := (\<lambda>r. [])(Sent 0 := [(''k'', Leaf (VInt 1))])\<rparr>)))
     = [(''k'', Leaf (VInt 1))]"
proof -
  let ?st = "(initial_state ())\<lparr>objects := (\<lambda>r. [])(Sent 0 := [(''k'', Leaf (VInt 1))])\<rparr>"
  have h: "map_of (profiles ?st) ''racer'' = None"
    by (simp add: initial_state_def)
  have e: "conf (snd (for_each (apply_event quiet_env) [State (Sent 0)] ?st))
             = [(''k'', Leaf (VInt 1))]"
    by (simp add: initial_state_def ok_def)
  from apply_unknown_profile [OF h, of quiet_env "[State (Sent 0)]"] h e
  show ?thesis by simp
qed

end
